theory Spec2Isabelle
  imports Complex_Main
begin

section \<open>Text\<close>

text \<open>
  Python's \<open>str\<close> is a sequence of Unicode code points, and the source uses characters
  outside Latin-1 (Cyrillic log lines, the em dash in the set of stripped separators),
  so a text is a list of code points. \<open>ascii\<close> embeds an ASCII literal.
\<close>

type_synonym uchar = nat
type_synonym ustr = "uchar list"

definition ascii :: "string \<Rightarrow> ustr" where
  "ascii s = map of_char s"

text \<open>\<open>str.lstrip(chars)\<close>, \<open>str.rstrip(chars)\<close> and \<open>str.strip(chars)\<close>: every leading
  (trailing) character that belongs to \<open>chars\<close> is removed.\<close>

definition lstrip_chars :: "uchar list \<Rightarrow> ustr \<Rightarrow> ustr" where
  "lstrip_chars cs s = dropWhile (\<lambda>c. c \<in> set cs) s"

definition rstrip_chars :: "uchar list \<Rightarrow> ustr \<Rightarrow> ustr" where
  "rstrip_chars cs s = rev (dropWhile (\<lambda>c. c \<in> set cs) (rev s))"

definition strip_chars :: "uchar list \<Rightarrow> ustr \<Rightarrow> ustr" where
  "strip_chars cs s = rstrip_chars cs (lstrip_chars cs s)"

text \<open>\<open>str(n)\<close> and the f-string conversion \<open>{n}\<close> of an integer: decimal digits, most
  significant first, with a minus sign for a negative number.\<close>

fun digit_list :: "nat \<Rightarrow> nat list" where
  "digit_list n = (if n < 10 then [n] else digit_list (n div 10) @ [n mod 10])"

declare digit_list.simps [simp del]

definition str_nat :: "nat \<Rightarrow> ustr" where
  "str_nat n = map (\<lambda>d. 48 + d) (digit_list n)"

definition str_int :: "int \<Rightarrow> ustr" where
  "str_int i = (if i < 0 then 45 # str_nat (nat (- i)) else str_nat (nat i))"

text \<open>The number an ASCII decimal numeral denotes; used to state what \<open>str_int\<close>
  prints.\<close>

definition dec_value :: "ustr \<Rightarrow> nat" where
  "dec_value s = foldl (\<lambda>a c. 10 * a + (c - 48)) 0 s"

text \<open>\<open>str.strip()\<close> without an argument removes leading and trailing white space, that is
  the code points for which \<open>str.isspace()\<close> holds.\<close>

definition is_space :: "uchar \<Rightarrow> bool" where
  "is_space c \<longleftrightarrow>
     (9 \<le> c \<and> c \<le> 13) \<or> (28 \<le> c \<and> c \<le> 32) \<or> c = 133 \<or> c = 160 \<or> c = 5760 \<or>
     (8192 \<le> c \<and> c \<le> 8202) \<or> c = 8232 \<or> c = 8233 \<or> c = 8239 \<or> c = 8287 \<or> c = 12288"

definition py_strip :: "ustr \<Rightarrow> ustr" where
  "py_strip s = rev (dropWhile is_space (rev (dropWhile is_space s)))"

text \<open>\<open>sep.join(xs)\<close>.\<close>

fun join :: "ustr \<Rightarrow> ustr list \<Rightarrow> ustr" where
  "join sep [] = []"
| "join sep [x] = x"
| "join sep (x # y # ys) = x @ sep @ join sep (y # ys)"

text \<open>\<open>s.replace(",", ".")\<close> on single characters.\<close>

definition replace_char :: "uchar \<Rightarrow> uchar \<Rightarrow> ustr \<Rightarrow> ustr" where
  "replace_char a b s = map (\<lambda>c. if c = a then b else c) s"

subsection \<open>Decimal digits\<close>

text \<open>
  In a \<open>str\<close> pattern \<open>\d\<close> matches every Unicode decimal digit (category Nd), and
  \<open>float\<close> reads the same digits. Each script's digits are ten consecutive code points
  from its zero; \<open>nd_zeros\<close> lists the zeros (Unicode 14, the table of CPython 3.11).
\<close>

definition nd_zeros :: "uchar list" where
  "nd_zeros = [48, 1632, 1776, 1984, 2406, 2534, 2662, 2790, 2918, 3046, 3174, 3302, 3430, 3558,
     3664, 3792, 3872, 4160, 4240, 6112, 6160, 6470, 6608, 6784, 6800, 6992, 7088, 7232, 7248,
     42528, 43216, 43264, 43472, 43504, 43600, 44016, 65296, 66720, 68912, 69734, 69872, 69942,
     70096, 70384, 70736, 70864, 71248, 71360, 71472, 71904, 72016, 72784, 73040, 73120, 92768,
     92864, 93008, 120782, 120792, 120802, 120812, 120822, 123200, 123632, 125264, 130032]"

definition decimal_digit :: "uchar \<Rightarrow> nat option" where
  "decimal_digit c = map_option (\<lambda>z. c - z) (find (\<lambda>z. z \<le> c \<and> c < z + 10) nd_zeros)"

definition is_decimal :: "uchar \<Rightarrow> bool" where
  "is_decimal c \<longleftrightarrow> decimal_digit c \<noteq> None"

definition digits_value :: "ustr \<Rightarrow> nat" where
  "digits_value s = foldl (\<lambda>a c. 10 * a + (case decimal_digit c of Some d \<Rightarrow> d | None \<Rightarrow> 0)) 0 s"

subsection \<open>Regular expression search\<close>

text \<open>
  The fragment of Python's \<open>re\<close> that the pattern \<open>(\d+[.,]\d+|\d+)\<close> needs: a character
  class, a greedy \<open>+\<close> of a class, sequence and ordered alternative. \<open>rests r s\<close> lists
  what is left of \<open>s\<close> after each way of matching \<open>r\<close> at its start, in the order in which
  the backtracking matcher tries them: a greedy repetition offers the longest run first,
  an alternative its left branch first. \<open>re_search\<close> is \<open>re.search\<close>: the first success
  at the leftmost start position; its result is the matched text (group 1 is the whole
  pattern here).
\<close>

datatype rx = Cls "uchar \<Rightarrow> bool" | PlusCls "uchar \<Rightarrow> bool" | Seq rx rx | Alt rx rx

fun plus_cls :: "(uchar \<Rightarrow> bool) \<Rightarrow> ustr \<Rightarrow> ustr list" where
  "plus_cls p [] = []"
| "plus_cls p (c # cs) = (if p c then plus_cls p cs @ [cs] else [])"

fun rests :: "rx \<Rightarrow> ustr \<Rightarrow> ustr list" where
  "rests (Cls p) s = (case s of [] \<Rightarrow> [] | c # cs \<Rightarrow> if p c then [cs] else [])"
| "rests (PlusCls p) s = plus_cls p s"
| "rests (Seq a b) s = concat (map (rests b) (rests a s))"
| "rests (Alt a b) s = rests a s @ rests b s"

fun re_search :: "rx \<Rightarrow> ustr \<Rightarrow> ustr option" where
  "re_search r [] = (case rests r [] of [] \<Rightarrow> None | rest # _ \<Rightarrow> Some [])"
| "re_search r (c # cs) =
     (case rests r (c # cs) of
        [] \<Rightarrow> re_search r cs
      | rest # _ \<Rightarrow> Some (take (length (c # cs) - length rest) (c # cs)))"

text \<open>The pattern \<open>(\d+[.,]\d+|\d+)\<close>; 46 is the period and 44 the comma.\<close>

definition rating_rx :: rx where
  "rating_rx =
     Alt (Seq (PlusCls is_decimal) (Seq (Cls (\<lambda>c. c = 46 \<or> c = 44)) (PlusCls is_decimal)))
         (PlusCls is_decimal)"

subsection \<open>Floating-point numbers\<close>

text \<open>
  A Python \<open>float\<close> is an IEEE 754 binary64 number. Ratings carry no sign, so a float is
  a non-negative rational that binary64 represents, or infinity. \<open>double_of_decimal n k\<close>
  is the binary64 number nearest to \<open>n / 10 ^ k\<close> (ties to the even significand), which is
  what \<open>float\<close> returns for a decimal literal: with \<open>e\<close> the binary exponent of the value
  (at least -1022, where the subnormal numbers begin), the value is rounded to a multiple of
  \<open>2 ^ (e - 52)\<close>, and a result of \<open>2 ^ 1024\<close> or more is infinity.
\<close>

datatype pyfloat = Finite rat | Infinity

fun bit_length :: "nat \<Rightarrow> nat" where
  "bit_length n = (if n = 0 then 0 else Suc (bit_length (n div 2)))"

declare bit_length.simps [simp del]

definition double_of_decimal :: "nat \<Rightarrow> nat \<Rightarrow> pyfloat" where
  "double_of_decimal n k =
     (if n = 0 then Finite 0
      else
        let d = 10 ^ k;
            e0 = int (bit_length n) - int (bit_length d);
            e = (if (if 0 \<le> e0 then d * 2 ^ nat e0 \<le> n else d \<le> n * 2 ^ nat (- e0))
                 then e0 else e0 - 1);
            ee = max e (- 1022);
            num = (if ee \<le> 52 then n * 2 ^ nat (52 - ee) else n);
            den = (if ee \<le> 52 then d else d * 2 ^ nat (ee - 52));
            m0 = num div den;
            r = num mod den;
            m = (if 2 * r < den then m0
                 else if den < 2 * r then m0 + 1
                 else if even m0 then m0 else m0 + 1);
            v = (if 52 \<le> ee then of_nat (m * 2 ^ nat (ee - 52))
                 else of_nat m / of_nat (2 ^ nat (52 - ee)))
        in if 2 ^ 1024 \<le> v then Infinity else Finite v)"

text \<open>Exceptions that the modelled code can raise.\<close>

datatype fault = NoSuchElementException | TimeoutException | ValueError | WebDriverException

text \<open>
  \<open>float(s)\<close> for the texts the pattern yields after the comma is replaced: digits, or
  digits, a period and digits. \<open>float\<close> accepts more than that (a sign, an exponent,
  surrounding blanks, a bare period); the model answers \<open>ValueError\<close> on every other text,
  so that a proof that no error arises does not lean on the wider grammar.
\<close>

definition py_float :: "ustr \<Rightarrow> fault + pyfloat" where
  "py_float s =
     (let ip = takeWhile is_decimal s; r = dropWhile is_decimal s
      in if ip = [] then Inl ValueError
         else if r = [] then Inr (double_of_decimal (digits_value ip) 0)
         else if hd r = 46 \<and> tl r \<noteq> [] \<and> list_all is_decimal (tl r)
           then Inr (double_of_decimal (digits_value (ip @ tl r)) (length (tl r)))
         else Inl ValueError)"

section \<open>Records and documents\<close>

text \<open>The dataclass \<open>Place\<close>, the same in both files.\<close>

record place =
  name :: ustr
  rating :: "pyfloat option"
  categories :: "ustr list"

text \<open>
  The browser is outside the program. What the code asks of a document is to find the
  elements that match a CSS selector and to read their text, so an element is given by the
  simple selectors it matches (among those the source uses), its text, and its descendants in
  document order. A selector is a comma-separated list of simple selectors; an element
  matches it when it matches one of them.
\<close>

datatype element = Element (kinds: "string list") (etext: ustr) (descendants: "element list")

type_synonym css = "string list"

definition selects :: "css \<Rightarrow> element \<Rightarrow> bool" where
  "selects sel e \<longleftrightarrow> (\<exists>s \<in> set sel. s \<in> set (kinds e))"

text \<open>\<open>find_elements\<close> returns every match in document order; \<open>find_element\<close> returns the
  first one and raises \<open>NoSuchElementException\<close> when there is none.\<close>

definition find_elements :: "css \<Rightarrow> element list \<Rightarrow> element list" where
  "find_elements sel es = filter (selects sel) es"

definition find_element :: "css \<Rightarrow> element list \<Rightarrow> fault + element" where
  "find_element sel es =
     (case find_elements sel es of [] \<Rightarrow> Inl NoSuchElementException | e # _ \<Rightarrow> Inr e)"

section \<open>Extraction rules of \<open>src/main.py\<close>\<close>

definition TITLE_SELECTORS :: "css list" where
  "TITLE_SELECTORS = [[''a.title-link.js-item-url''], [''.minicard-item__title''], [''h2'']]"

definition RATING_SELECTOR :: css where
  "RATING_SELECTOR = [''.minicard-item__rating'', ''.rating'', ''.stars'']"

definition FEATURES_SELECTOR :: css where
  "FEATURES_SELECTOR = [''.minicard-item__features a'', ''.service-items a'', ''.tags a'']"

definition CARD_SELECTORS :: "css list" where
  "CARD_SELECTORS = [[''li.minicard-item.js-results-item''], [''div.minicard-item'']]"

text \<open>\<open>_extract_name\<close>: the loop over the title selectors.\<close>

fun extract_name_from :: "css list \<Rightarrow> element \<Rightarrow> ustr" where
  "extract_name_from [] crd = []"
| "extract_name_from (selector # others) crd =
     (case find_element selector (descendants crd) of
        Inl _ \<Rightarrow> extract_name_from others crd
      | Inr e \<Rightarrow>
          (let text = py_strip (etext e)
           in if text \<noteq> [] then text else extract_name_from others crd))"

definition extract_name :: "element \<Rightarrow> ustr" where
  "extract_name crd = extract_name_from TITLE_SELECTORS crd"

text \<open>\<open>_extract_rating\<close>, from the stripped text of the rating element on
  (\<open>re.search\<close>, \<open>replace\<close>, \<open>float\<close>).\<close>

definition rating_of_text :: "ustr \<Rightarrow> fault + pyfloat option" where
  "rating_of_text text =
     (case re_search rating_rx text of
        None \<Rightarrow> Inr None
      | Some m \<Rightarrow>
          (case py_float (replace_char 44 46 m) of
             Inl err \<Rightarrow> Inl err
           | Inr x \<Rightarrow> Inr (Some x)))"

definition extract_rating :: "element \<Rightarrow> fault + pyfloat option" where
  "extract_rating crd =
     (case find_element RATING_SELECTOR (descendants crd) of
        Inl _ \<Rightarrow> Inr None
      | Inr e \<Rightarrow> rating_of_text (py_strip (etext e)))"

text \<open>\<open>_extract_categories\<close>: the characters stripped are the space, the middle dot, the em
  dash, the hyphen, the line feed and the tab. The loop carries the list built so far and
  the set of texts seen.\<close>

definition SEPARATORS :: "uchar list" where
  "SEPARATORS = [32, 183, 8212, 45, 10, 9]"

fun categories_loop :: "ustr list \<Rightarrow> ustr list \<times> ustr set \<Rightarrow> ustr list \<times> ustr set" where
  "categories_loop [] (cats, seen) = (cats, seen)"
| "categories_loop (t # ts) (cats, seen) =
     (let text = strip_chars SEPARATORS t
      in if text \<noteq> [] \<and> text \<notin> seen
         then categories_loop ts (cats @ [text], insert text seen)
         else categories_loop ts (cats, seen))"

definition categories_of_texts :: "ustr list \<Rightarrow> ustr list" where
  "categories_of_texts ts = fst (categories_loop ts ([], {}))"

definition extract_categories :: "element \<Rightarrow> ustr list" where
  "extract_categories crd =
     categories_of_texts (map etext (find_elements FEATURES_SELECTOR (descendants crd)))"

text \<open>\<open>_parse_card\<close>. An exception from the rating leaves the function.\<close>

definition parse_card :: "element \<Rightarrow> fault + place" where
  "parse_card crd =
     (let n = extract_name crd
      in case extract_rating crd of
           Inl err \<Rightarrow> Inl err
         | Inr r \<Rightarrow> Inr \<lparr> name = n, rating = r, categories = extract_categories crd \<rparr>)"

section \<open>Extraction rules of the standalone script\<close>

text \<open>\<open>parse_card\<close> of \<open>zoon_tomsk_restaurants.py\<close>. The name is the stripped text of the
  first title link; only when there is no such element is the combined selector tried, and
  any failure there gives the empty name.\<close>

definition script_parse_name :: "element \<Rightarrow> ustr" where
  "script_parse_name crd =
     (case find_element [''a.title-link.js-item-url''] (descendants crd) of
        Inr e \<Rightarrow> py_strip (etext e)
      | Inl _ \<Rightarrow>
          (case find_element [''.minicard-item__title'', ''h2''] (descendants crd) of
             Inr e \<Rightarrow> py_strip (etext e)
           | Inl _ \<Rightarrow> []))"

definition script_parse_rating :: "element \<Rightarrow> fault + pyfloat option" where
  "script_parse_rating crd =
     (case find_element [''.minicard-item__rating'', ''.rating'', ''.stars''] (descendants crd) of
        Inl _ \<Rightarrow> Inr None
      | Inr e \<Rightarrow>
          (let t = py_strip (etext e)
           in case re_search rating_rx t of
                None \<Rightarrow> Inr None
              | Some m \<Rightarrow>
                  (case py_float (replace_char 44 46 m) of
                     Inl err \<Rightarrow> Inl err
                   | Inr x \<Rightarrow> Inr (Some x))))"

definition script_parse_categories :: "element \<Rightarrow> ustr list" where
  "script_parse_categories crd =
     fst (categories_loop
            (map etext (find_elements [''.minicard-item__features a'', ''.service-items a'', ''.tags a'']
                          (descendants crd)))
            ([], {}))"

definition script_parse_card :: "element \<Rightarrow> fault + place" where
  "script_parse_card crd =
     (let n = script_parse_name crd
      in case script_parse_rating crd of
           Inl err \<Rightarrow> Inl err
         | Inr r \<Rightarrow> Inr \<lparr> name = n, rating = r, categories = script_parse_categories crd \<rparr>)"

section \<open>Configuration\<close>

text \<open>The fields of \<open>ParserConfig\<close> that the control flow reads. Delays, user agents and
  window sizes only pace the browser and are left out.\<close>

record parser_config =
  city_url :: ustr
  total_pages :: int
  headless :: bool
  protect_poll_attempts :: int
  protect_manual_retry_attempts :: int
  csv_filename :: ustr
  log_filename :: ustr

definition default_config :: parser_config where
  "default_config =
     \<lparr> city_url = ascii ''https://zoon.ru/tomsk/restaurants/'',
       total_pages = 34,
       headless = False,
       protect_poll_attempts = 10,
       protect_manual_retry_attempts = 6,
       csv_filename = ascii ''zoon_tomsk_restaurants.csv'',
       log_filename = ascii ''zoon_loader_log.txt'' \<rparr>"

text \<open>The module constants of the standalone script \<open>zoon_tomsk_restaurants.py\<close>.\<close>

definition CITY_URL :: ustr where
  "CITY_URL = ascii ''https://zoon.ru/tomsk/restaurants/''"

definition TOTAL_PAGES :: int where
  "TOTAL_PAGES = 34"

section \<open>Page URL\<close>

text \<open>\<open>ParserConfig.page_url\<close> of \<open>src/main.py\<close>.\<close>

definition page_url :: "parser_config \<Rightarrow> int \<Rightarrow> ustr" where
  "page_url cfg page =
     (if page = 1 then city_url cfg
      else rstrip_chars (ascii ''/'') (city_url cfg) @ ascii ''/page-'' @ str_int page @ ascii ''/'')"

text \<open>\<open>page_url\<close> of the standalone script.\<close>

definition script_page_url :: "int \<Rightarrow> ustr" where
  "script_page_url n =
     (if n = 1 then CITY_URL
      else rstrip_chars (ascii ''/'') CITY_URL @ ascii ''/page-'' @ str_int n @ ascii ''/'')"

section \<open>Browser, files and scraper state\<close>

text \<open>
  What the browser shows after \<open>driver.get(url)\<close>: the page source at each successive read
  (the page changes while a challenge resolves or after a reload), whether the wait for an
  element matching a container selector succeeds within its timeout, the elements of the
  document when the cards are collected, and whether the navigation itself fails.
\<close>

record page_view =
  sources :: "nat \<Rightarrow> ustr"
  present :: "string \<Rightarrow> bool"
  document :: "element list"
  crash :: bool

text \<open>The surroundings of a run: the site by URL, \<open>str.lower\<close> (its Unicode case table is
  not reproduced), and whether \<open>driver.quit()\<close> raises.\<close>

record world =
  site :: "ustr \<Rightarrow> page_view"
  lower :: "ustr \<Rightarrow> ustr"
  quit_raises :: bool

datatype cell = CellText ustr | CellFloat pyfloat

record dataframe =
  columns :: "ustr list"
  rows :: "cell list list"

datatype out_file = CsvFile dataframe | TextFile ustr

text \<open>
  The fields of \<open>ZoonScraper\<close> (\<open>places\<close>, \<open>logs\<close>, whether \<open>_driver\<close> is set) together
  with the effects on the outside: the URLs passed to \<open>driver.get\<close>, the number of calls of
  \<open>driver.quit\<close>, and the files of the output directory by name.
\<close>

record scraper =
  places :: "place list"
  logs :: "ustr list"
  driver_open :: bool
  visited :: "ustr list"
  quit_calls :: nat
  files :: "ustr \<rightharpoonup> out_file"

definition log_append :: "ustr \<Rightarrow> scraper \<Rightarrow> scraper" where
  "log_append line st = st\<lparr>logs := logs st @ [line]\<rparr>"

subsection \<open>Log lines\<close>

definition txt_opened :: ustr where
  "txt_opened = [1054, 1090, 1082, 1088, 1099, 1090, 1072, 32, 1089, 1090, 1088, 1072, 1085, 1080,
     1094, 1072, 32]"

definition txt_page :: ustr where
  "txt_page = [1057, 1090, 1088, 46, 32]"

definition txt_no_cards :: ustr where
  "txt_no_cards = [58, 32, 1082, 1072, 1088, 1090, 1086, 1095, 1077, 1082, 32, 1085, 1077, 1090,
     32, 8212, 32, 1089, 1090, 1086, 1087]"

definition txt_protect_wait :: ustr where
  "txt_protect_wait = [58, 32, 1101, 1082, 1088, 1072, 1085, 32, 1087, 1088, 1086, 1074, 1077,
     1088, 1082, 1080, 32, 8212, 32, 1078, 1076, 1105, 1084, 32, 1088, 1077, 1076, 1080, 1088,
     1077, 1082, 1090]"

definition txt_protect_failed :: ustr where
  "txt_protect_failed = [58, 32, 1087, 1088, 1086, 1074, 1077, 1088, 1082, 1072, 32, 1085, 1077,
     32, 1087, 1088, 1086, 1081, 1076, 1077, 1085, 1072, 32, 8212, 32, 1089, 1090, 1086, 1087]"

definition txt_manual :: ustr where
  "txt_manual = [58, 32, 1088, 1091, 1095, 1085, 1086, 1077, 32, 1087, 1086, 1076, 1090, 1074,
     1077, 1088, 1078, 1076, 1077, 1085, 1080, 1077, 32, 1087, 1086, 1083, 1100, 1079, 1086, 1074,
     1072, 1090, 1077, 1083, 1103]"

definition txt_manual_failed :: ustr where
  "txt_manual_failed = [58, 32, 1087, 1088, 1086, 1074, 1077, 1088, 1082, 1072, 32, 1085, 1077,
     32, 1087, 1088, 1086, 1081, 1076, 1077, 1085, 1072, 32, 1087, 1086, 1089, 1083, 1077, 32,
     1088, 1091, 1095, 1085, 1086, 1075, 1086, 32, 1087, 1086, 1076, 1090, 1074, 1077, 1088, 1078,
     1076, 1077, 1085, 1080, 1103, 32, 8212, 32, 1089, 1090, 1086, 1087]"

definition txt_no_container :: ustr where
  "txt_no_container = [58, 32, 1082, 1086, 1085, 1090, 1077, 1081, 1085, 1077, 1088, 32, 1085,
     1077, 32, 1085, 1072, 1081, 1076, 1077, 1085, 32, 8212, 32, 1089, 1090, 1086, 1087]"

definition txt_cards :: ustr where
  "txt_cards = [58, 32, 1082, 1072, 1088, 1090, 1086, 1095, 1077, 1082, 32]"

definition txt_added :: ustr where
  "txt_added = [44, 32, 1076, 1086, 1073, 1072, 1074, 1083, 1077, 1085, 1086, 32]"

definition txt_total :: ustr where
  "txt_total = [44, 32, 1074, 1089, 1077, 1075, 1086, 32]"

definition msg_opened :: "int \<Rightarrow> ustr \<Rightarrow> ustr" where
  "msg_opened page url = txt_opened @ str_int page @ ascii '': '' @ url"

definition msg_page :: "int \<Rightarrow> ustr \<Rightarrow> ustr" where
  "msg_page page tail = txt_page @ str_int page @ tail"

definition msg_success :: "int \<Rightarrow> nat \<Rightarrow> int \<Rightarrow> nat \<Rightarrow> ustr" where
  "msg_success page n_found added n_total =
     txt_page @ str_int page @ txt_cards @ str_int (int n_found) @ txt_added @ str_int added @
     txt_total @ str_int (int n_total)"


section \<open>Persistence\<close>

text \<open>\<open>df_from_places\<close>: one dictionary per place, with the keys in this order. A data frame
  built from an empty list of dictionaries has no columns.\<close>

definition col_name :: ustr where
  "col_name = [1053, 1072, 1079, 1074, 1072, 1085, 1080, 1077]"

definition col_rating :: ustr where
  "col_rating = [1056, 1077, 1081, 1090, 1080, 1085, 1075]"

definition col_categories :: ustr where
  "col_categories = [1053, 1072, 1087, 1088, 1072, 1074, 1083, 1077, 1085, 1080, 1103]"

definition place_row :: "place \<Rightarrow> cell list" where
  "place_row p =
     [CellText (name p),
      (case rating p of None \<Rightarrow> CellText [] | Some x \<Rightarrow> CellFloat x),
      CellText (if categories p \<noteq> [] then join (ascii '' | '') (categories p) else [])]"

definition df_from_places :: "place list \<Rightarrow> dataframe" where
  "df_from_places ps =
     (if ps = [] then \<lparr> columns = [], rows = [] \<rparr>
      else \<lparr> columns = [col_name, col_rating, col_categories], rows = map place_row ps \<rparr>)"

text \<open>The format \<open>{page:02d}\<close>: at least two characters, padded with zeros on the
  left.\<close>

definition format_02d :: "int \<Rightarrow> ustr" where
  "format_02d n =
     (if n < 0 then str_int n
      else replicate (2 - length (str_nat (nat n))) 48 @ str_nat (nat n))"

definition partial_csv_name :: "ustr \<Rightarrow> ustr" where
  "partial_csv_name suffix = ascii ''zoon_tomsk_restaurants_page_'' @ suffix @ ascii ''.csv''"

definition partial_log_name :: "ustr \<Rightarrow> ustr" where
  "partial_log_name suffix = ascii ''zoon_loader_log_page_'' @ suffix @ ascii ''.txt''"

text \<open>\<open>_save_partial\<close>: \<open>to_csv\<close> and \<open>write_text\<close> replace
  the file of that name.\<close>

definition save_partial :: "int \<Rightarrow> scraper \<Rightarrow> scraper" where
  "save_partial page st =
     (let suffix = format_02d page
      in st\<lparr>files := (files st)
            (partial_csv_name suffix \<mapsto> CsvFile (df_from_places (places st)),
             partial_log_name suffix \<mapsto> TextFile (join [10] (logs st)))\<rparr>)"

section \<open>The scraper of \<open>src/main.py\<close>\<close>

definition PROTECT_TOKENS :: "ustr list" where
  "PROTECT_TOKENS =
     [[1084, 1099, 32, 1087, 1088, 1086, 1074, 1077, 1088, 1103, 1077, 1084, 44, 32, 1095, 1090,
       1086, 32, 1074, 1099, 32, 1085, 1077, 32, 1088, 1086, 1073, 1086, 1090],
      ascii ''checking your browser'',
      ascii ''you will be redirected'',
      ascii ''cloudflare'',
      [1087, 1086, 1076, 1086, 1078, 1076, 1080, 1090, 1077, 32, 1085, 1077, 1089, 1082, 1086,
       1083, 1100, 1082, 1086, 32, 1089, 1077, 1082, 1091, 1085, 1076]]"

text \<open>\<open>token in html\<close>: \<open>token\<close> occurs in \<open>html\<close> as a
  contiguous piece.\<close>

fun contains :: "ustr \<Rightarrow> ustr \<Rightarrow> bool" where
  "contains [] token = (token = [])"
| "contains (c # cs) token = (take (length token) (c # cs) = token \<or> contains cs token)"

definition is_protect_screen :: "world \<Rightarrow> ustr \<Rightarrow> bool" where
  "is_protect_screen w page_source =
     (let html = lower w page_source in list_ex (contains html) PROTECT_TOKENS)"

text \<open>
  A polling loop \<open>for _ in range(n): sleep; if not is_protect_screen: return True\<close>, begun at
  the \<open>i\<close>-th read of the page source: whether one of the next \<open>n\<close> reads is clear.
\<close>

fun poll :: "(nat \<Rightarrow> bool) \<Rightarrow> nat \<Rightarrow> nat \<Rightarrow> bool" where
  "poll challenged i 0 = False"
| "poll challenged i (Suc n) = (if \<not> challenged i then True else poll challenged (Suc i) n)"

text \<open>\<open>_handle_protect_screen\<close>. The operator's confirmation (\<open>input()\<close>) is taken to
  arrive; the reload between two manual retries shows in the next read of the source.\<close>

definition handle_protect_screen ::
  "world \<Rightarrow> parser_config \<Rightarrow> int \<Rightarrow> page_view \<Rightarrow> scraper \<Rightarrow> bool \<times> scraper" where
  "handle_protect_screen w cfg page view st =
     (let challenged = (\<lambda>i. is_protect_screen w (sources view i));
          p = nat (protect_poll_attempts cfg);
          m = nat (protect_manual_retry_attempts cfg)
      in if \<not> challenged 0 then (True, st)
         else
           let st1 = log_append (msg_page page txt_protect_wait) st
           in if poll challenged 1 p then (True, st1)
              else if headless cfg then (False, log_append (msg_page page txt_protect_failed) st1)
              else
                let st2 = log_append (msg_page page txt_manual) st1
                in if poll challenged (1 + p) m then (True, st2)
                   else (False, log_append (msg_page page txt_manual_failed) st2))"

definition CONTAINER_CANDIDATES :: "string list" where
  "CONTAINER_CANDIDATES = [''ul.js-results-group'', ''div.catalog-list'', ''div.results-container'']"

text \<open>\<open>_wait_cards_container\<close>: the first candidate whose wait does not time out.\<close>

definition wait_cards_container :: "page_view \<Rightarrow> int \<Rightarrow> scraper \<Rightarrow> bool \<times> scraper" where
  "wait_cards_container view page st =
     (if list_ex (present view) CONTAINER_CANDIDATES then (True, st)
      else (False, log_append (msg_page page txt_no_container) st))"

text \<open>\<open>_collect_cards\<close>: the matches of the first selector that has any.\<close>

fun collect_from :: "css list \<Rightarrow> element list \<Rightarrow> element list" where
  "collect_from [] doc = []"
| "collect_from (selector # others) doc =
     (let items = find_elements selector doc
      in if items \<noteq> [] then items else collect_from others doc)"

definition collect_cards :: "page_view \<Rightarrow> element list" where
  "collect_cards view = collect_from CARD_SELECTORS (document view)"

text \<open>\<open>_append_cards\<close>: the loop stops where \<open>_parse_card\<close> raises, with the places appended
  so far.\<close>

fun append_loop :: "element list \<Rightarrow> scraper \<Rightarrow> fault option \<times> scraper" where
  "append_loop [] st = (None, st)"
| "append_loop (crd # cards) st =
     (case parse_card crd of
        Inl err \<Rightarrow> (Some err, st)
      | Inr p \<Rightarrow>
          if name p \<noteq> [] then append_loop cards (st\<lparr>places := places st @ [p]\<rparr>)
          else append_loop cards st)"

definition append_cards :: "element list \<Rightarrow> scraper \<Rightarrow> (fault + int) \<times> scraper" where
  "append_cards cards st =
     (let n_before = length (places st)
      in case append_loop cards st of
           (Some err, st') \<Rightarrow> (Inl err, st')
         | (None, st') \<Rightarrow> (Inr (int (length (places st')) - int n_before), st'))"

text \<open>\<open>_process_page\<close>. The result is \<open>Inr True\<close> to go on, \<open>Inr False\<close> to stop the run, or
  the exception that leaves the function.\<close>

definition process_page ::
  "world \<Rightarrow> parser_config \<Rightarrow> int \<Rightarrow> scraper \<Rightarrow> (fault + bool) \<times> scraper" where
  "process_page w cfg page st =
     (let url = page_url cfg page;
          st1 = log_append (msg_opened page url) st;
          view = site w url;
          st2 = st1\<lparr>visited := visited st1 @ [url]\<rparr>
      in if crash view then (Inl WebDriverException, st2)
         else
           case handle_protect_screen w cfg page view st2 of
             (False, st3) \<Rightarrow> (Inr False, st3)
           | (True, st3) \<Rightarrow>
               (case wait_cards_container view page st3 of
                  (False, st4) \<Rightarrow> (Inr False, st4)
                | (True, st4) \<Rightarrow>
                    (let cards = collect_cards view
                     in if cards = [] then (Inr False, log_append (msg_page page txt_no_cards) st4)
                        else
                          case append_cards cards st4 of
                            (Inl err, st5) \<Rightarrow> (Inl err, st5)
                          | (Inr added, st5) \<Rightarrow>
                              (let st6 = log_append
                                     (msg_success page (length cards) added (length (places st5))) st5
                               in (Inr True, save_partial page st6)))))"

text \<open>\<open>close\<close>: nothing without a driver; otherwise \<open>quit\<close> is called, whatever it raises is
  dropped, and the driver is forgotten.\<close>

definition driver_quit :: "world \<Rightarrow> scraper \<Rightarrow> (fault + unit) \<times> scraper" where
  "driver_quit w st =
     (if quit_raises w then Inl WebDriverException else Inr (),
      st\<lparr>quit_calls := Suc (quit_calls st)\<rparr>)"

definition close :: "world \<Rightarrow> scraper \<Rightarrow> scraper" where
  "close w st =
     (if \<not> driver_open st then st
      else
        case driver_quit w st of
          (Inl _, st') \<Rightarrow> st'\<lparr>driver_open := False\<rparr>
        | (Inr _, st') \<Rightarrow> st'\<lparr>driver_open := False\<rparr>)"

definition ensure_driver :: "scraper \<Rightarrow> scraper" where
  "ensure_driver st = (if \<not> driver_open st then st\<lparr>driver_open := True\<rparr> else st)"

text \<open>The loop of \<open>run\<close> over the pages that remain.\<close>

fun run_loop :: "world \<Rightarrow> parser_config \<Rightarrow> int list \<Rightarrow> scraper \<Rightarrow> fault option \<times> scraper" where
  "run_loop w cfg [] st = (None, st)"
| "run_loop w cfg (page # pages) st =
     (case process_page w cfg page st of
        (Inl err, st') \<Rightarrow> (Some err, st')
      | (Inr False, st') \<Rightarrow> (None, st')
      | (Inr True, st') \<Rightarrow> run_loop w cfg pages st')"

text \<open>\<open>run\<close>: the loop inside \<open>try\<close>, \<open>close\<close> inside \<open>finally\<close>; an exception of the loop
  leaves \<open>run\<close> after \<open>close\<close>.\<close>

definition run :: "world \<Rightarrow> parser_config \<Rightarrow> scraper \<Rightarrow> (fault + place list \<times> ustr list) \<times> scraper" where
  "run w cfg st =
     (case run_loop w cfg [1 .. total_pages cfg] (ensure_driver st) of
        (raised, st1) \<Rightarrow>
          (let st2 = close w st1
           in case raised of
                Some err \<Rightarrow> (Inl err, st2)
              | None \<Rightarrow> (Inr (places st2, logs st2), st2)))"

text \<open>A new \<open>ZoonScraper\<close> over the files already in the output directory, and
  \<open>main\<close>.\<close>

definition new_scraper :: "(ustr \<rightharpoonup> out_file) \<Rightarrow> scraper" where
  "new_scraper fs =
     \<lparr> places = [], logs = [], driver_open = False, visited = [], quit_calls = 0, files = fs \<rparr>"

definition main :: "world \<Rightarrow> parser_config \<Rightarrow> (ustr \<rightharpoonup> out_file) \<Rightarrow> fault option \<times> scraper" where
  "main w cfg fs =
     (case run w cfg (new_scraper fs) of
        (Inl err, st) \<Rightarrow> (Some err, st)
      | (Inr (ps, history), st) \<Rightarrow>
          (None, st\<lparr>files := (files st)
                  (csv_filename cfg \<mapsto> CsvFile (df_from_places ps),
                   log_filename cfg \<mapsto> TextFile (join [10] history))\<rparr>))"


section \<open>The standalone script \<open>zoon_tomsk_restaurants.py\<close>\<close>

definition HEADLESS :: bool where
  "HEADLESS = False"

definition script_is_protect_screen :: "world \<Rightarrow> ustr \<Rightarrow> bool" where
  "script_is_protect_screen w page_source =
     (let html = lower w page_source;
          keys =
            [[1084, 1099, 32, 1087, 1088, 1086, 1074, 1077, 1088, 1103, 1077, 1084, 44, 32, 1095,
              1090, 1086, 32, 1074, 1099, 32, 1085, 1077, 32, 1088, 1086, 1073, 1086, 1090],
             ascii ''checking your browser'',
             ascii ''you will be redirected'',
             ascii ''cloudflare'',
             [1087, 1086, 1076, 1086, 1078, 1076, 1080, 1090, 1077, 32, 1085, 1077, 1089, 1082,
              1086, 1083, 1100, 1082, 1086, 32, 1089, 1077, 1082, 1091, 1085, 1076]]
      in list_ex (contains html) keys)"

text \<open>\<open>wait_cards_container\<close> of the script returns nothing and raises the last
  \<open>TimeoutException\<close> when no candidate appears.\<close>

definition script_wait_cards_container :: "page_view \<Rightarrow> fault + unit" where
  "script_wait_cards_container view =
     (if list_ex (present view) [''ul.js-results-group'', ''div.catalog-list'', ''div.results-container'']
      then Inr () else Inl TimeoutException)"

definition script_collect_cards :: "page_view \<Rightarrow> element list" where
  "script_collect_cards view =
     (let items = find_elements [''li.minicard-item.js-results-item''] (document view)
      in if items \<noteq> [] then items
         else
           let items = find_elements [''div.minicard-item''] (document view)
           in if items \<noteq> [] then items else [])"

definition script_save_partial :: "ustr \<Rightarrow> scraper \<Rightarrow> scraper" where
  "script_save_partial suffix st =
     st\<lparr>files := (files st)
          (partial_csv_name suffix \<mapsto> CsvFile (df_from_places (places st)),
           partial_log_name suffix \<mapsto> TextFile (join [10] (logs st)))\<rparr>"

text \<open>The loop \<open>for c in cards\<close> of \<open>scrape_all_pages\<close>.\<close>

fun script_append_loop :: "element list \<Rightarrow> scraper \<Rightarrow> fault option \<times> scraper" where
  "script_append_loop [] st = (None, st)"
| "script_append_loop (c # cards) st =
     (case script_parse_card c of
        Inl err \<Rightarrow> (Some err, st)
      | Inr p \<Rightarrow>
          if name p \<noteq> [] then script_append_loop cards (st\<lparr>places := places st @ [p]\<rparr>)
          else script_append_loop cards st)"

text \<open>The challenge branch of the loop body: eight polls, then the prompt when the window
  is visible; the body goes on in every case.\<close>

definition script_protect_step :: "world \<Rightarrow> int \<Rightarrow> page_view \<Rightarrow> scraper \<Rightarrow> scraper" where
  "script_protect_step w page view st =
     (let challenged = (\<lambda>i. script_is_protect_screen w (sources view i))
      in if challenged 0 then
           let st1 = log_append (msg_page page txt_protect_wait) st;
               ok = poll challenged 1 8
           in if \<not> ok \<and> \<not> HEADLESS then log_append (msg_page page txt_manual) st1 else st1
         else st)"

text \<open>The body of the loop of \<open>scrape_all_pages\<close>: \<open>Inr True\<close> to go on, \<open>Inr False\<close> for
  \<open>break\<close>, or the exception that leaves the loop.\<close>

definition script_page_step :: "world \<Rightarrow> int \<Rightarrow> scraper \<Rightarrow> (fault + bool) \<times> scraper" where
  "script_page_step w page st =
     (let url = script_page_url page;
          st1 = log_append (msg_opened page url) st;
          view = site w url;
          st2 = st1\<lparr>visited := visited st1 @ [url]\<rparr>
      in if crash view then (Inl WebDriverException, st2)
         else
           let st3 = script_protect_step w page view st2
           in case script_wait_cards_container view of
                Inl _ \<Rightarrow> (Inr False, log_append (msg_page page txt_no_container) st3)
              | Inr _ \<Rightarrow>
                  (let cards = script_collect_cards view
                   in if cards = [] then (Inr False, log_append (msg_page page txt_no_cards) st3)
                      else
                        let n_before = length (places st3)
                        in case script_append_loop cards st3 of
                             (Some err, st4) \<Rightarrow> (Inl err, st4)
                           | (None, st4) \<Rightarrow>
                               (let added = int (length (places st4)) - int n_before;
                                    st5 = log_append
                                      (msg_success page (length cards) added (length (places st4))) st4
                                in (Inr True, script_save_partial (format_02d page) st5))))"

fun script_loop :: "world \<Rightarrow> int list \<Rightarrow> scraper \<Rightarrow> fault option \<times> scraper" where
  "script_loop w [] st = (None, st)"
| "script_loop w (page # pages) st =
     (case script_page_step w page st of
        (Inl err, st') \<Rightarrow> (Some err, st')
      | (Inr False, st') \<Rightarrow> (None, st')
      | (Inr True, st') \<Rightarrow> script_loop w pages st')"

text \<open>\<open>scrape_all_pages\<close>: the driver is built, the loop runs inside
  \<open>try\<close>, and \<open>finally\<close>
  calls \<open>quit\<close> and drops what it raises.\<close>

definition scrape_all_pages ::
  "world \<Rightarrow> (ustr \<rightharpoonup> out_file) \<Rightarrow> (fault + place list \<times> ustr list) \<times> scraper" where
  "scrape_all_pages w fs =
     (case script_loop w [1 .. TOTAL_PAGES]
             \<lparr> places = [], logs = [], driver_open = True, visited = [], quit_calls = 0, files = fs \<rparr> of
        (raised, st1) \<Rightarrow>
          (let st2 = (case driver_quit w st1 of
                        (Inl _, st') \<Rightarrow> st'\<lparr>driver_open := False\<rparr>
                      | (Inr _, st') \<Rightarrow> st'\<lparr>driver_open := False\<rparr>)
           in case raised of
                Some err \<Rightarrow> (Inl err, st2)
              | None \<Rightarrow> (Inr (places st2, logs st2), st2)))"

text \<open>The entry point of the script: the records and the log that \<open>scrape_all_pages\<close>
  returns are written to \<open>CSV_PATH\<close> and \<open>LOG_PATH\<close> (names inside the output directory);
  an exception of \<open>scrape_all_pages\<close> leaves the script before anything is written.\<close>

definition CSV_PATH :: ustr where
  "CSV_PATH = ascii ''zoon_tomsk_restaurants.csv''"

definition LOG_PATH :: ustr where
  "LOG_PATH = ascii ''zoon_loader_log.txt''"

definition script_main :: "world \<Rightarrow> (ustr \<rightharpoonup> out_file) \<Rightarrow> fault option \<times> scraper" where
  "script_main w fs =
     (case scrape_all_pages w fs of
        (Inl err, st) \<Rightarrow> (Some err, st)
      | (Inr (data, history), st) \<Rightarrow>
          (None, st\<lparr>files := (files st)
                  (CSV_PATH \<mapsto> CsvFile (df_from_places data),
                   LOG_PATH \<mapsto> TextFile (join [10] history))\<rparr>))"

section \<open>Reference descriptions\<close>

text \<open>
  Functions that say in a direct way what the specification describes; the theorems compare
  the program with them. The first numeric pattern of a text: skip to the first decimal digit,
  take the run of digits there, and, when a period or a comma followed by a digit comes next,
  the run of digits after it as well.
\<close>

definition frac_follows :: "ustr \<Rightarrow> bool" where
  "frac_follows a \<longleftrightarrow> a \<noteq> [] \<and> (hd a = 46 \<or> hd a = 44) \<and> tl a \<noteq> [] \<and> is_decimal (hd (tl a))"

definition scan_number :: "ustr \<Rightarrow> (ustr \<times> ustr) option" where
  "scan_number t =
     (let r = dropWhile (\<lambda>c. \<not> is_decimal c) t;
          ip = takeWhile is_decimal r;
          a = dropWhile is_decimal r
      in if r = [] then None
         else if frac_follows a then Some (ip, takeWhile is_decimal (tl a))
         else Some (ip, []))"

definition scan_literal :: "ustr \<Rightarrow> ustr option" where
  "scan_literal t =
     (let r = dropWhile (\<lambda>c. \<not> is_decimal c) t;
          ip = takeWhile is_decimal r;
          a = dropWhile is_decimal r
      in if r = [] then None
         else if frac_follows a then Some (ip @ hd a # takeWhile is_decimal (tl a))
         else Some ip)"

text \<open>The elements of a list at their first occurrence, in the order of the list.\<close>

function first_occurrences :: "'a list \<Rightarrow> 'a list" where
  "first_occurrences [] = []"
| "first_occurrences (x # xs) = x # first_occurrences (filter (\<lambda>y. y \<noteq> x) xs)"
  by pat_completeness auto
termination
  by (relation "measure length") (auto simp: less_Suc_eq_le)

text \<open>A list of places all of which have a name.\<close>

definition named :: "place list \<Rightarrow> bool" where
  "named ps \<longleftrightarrow> list_all (\<lambda>p. name p \<noteq> []) ps"

text \<open>A title selector gives no name for a card: no element matches it, or the text of the first
  match is white space only.\<close>

definition blank_title :: "element \<Rightarrow> css \<Rightarrow> bool" where
  "blank_title crd selector \<longleftrightarrow>
     (case find_element selector (descendants crd) of
        Inl _ \<Rightarrow> True
      | Inr e \<Rightarrow> list_all is_space (etext e))"

text \<open>Log lines: the line written when a page is opened begins with the text of
  \<open>txt_opened\<close>; every other line begins with \<open>txt_page\<close>.\<close>

definition opened_line :: "ustr \<Rightarrow> bool" where
  "opened_line l \<longleftrightarrow> take (length txt_opened) l = txt_opened"

definition outcome_line :: "ustr \<Rightarrow> bool" where
  "outcome_line l \<longleftrightarrow> take (length txt_page) l = txt_page"

text \<open>The detector reports a challenge at the \<open>i\<close>-th read of the page source.\<close>

definition challenged_at :: "world \<Rightarrow> page_view \<Rightarrow> nat \<Rightarrow> bool" where
  "challenged_at w view i \<longleftrightarrow> is_protect_screen w (sources view i)"

text \<open>The scraper after the first two effects of a page step: the opened-page line is logged and
  the URL is handed to the browser.\<close>

definition after_open :: "int \<Rightarrow> ustr \<Rightarrow> scraper \<Rightarrow> scraper" where
  "after_open page url st = (log_append (msg_opened page url) st)\<lparr>visited := visited st @ [url]\<rparr>"

text \<open>What one page step may change: it logs the opened-page line first and then outcome lines
  only, appends named places, visits the URL of the page, and leaves the driver alone.\<close>

definition step_effect :: "int \<Rightarrow> ustr \<Rightarrow> scraper \<Rightarrow> scraper \<Rightarrow> bool" where
  "step_effect page url st st' \<longleftrightarrow>
     (\<exists>ls new.
        logs st' = logs st @ msg_opened page url # ls \<and> list_all outcome_line ls \<and>
        places st' = places st @ new \<and> named new \<and>
        visited st' = visited st @ [url] \<and>
        driver_open st' = driver_open st \<and> quit_calls st' = quit_calls st)"

text \<open>What a run over the pages \<open>vp\<close> may change, page by page.\<close>

definition run_effect :: "(int \<Rightarrow> ustr) \<Rightarrow> int list \<Rightarrow> scraper \<Rightarrow> scraper \<Rightarrow> bool" where
  "run_effect url_of vp st st' \<longleftrightarrow>
     visited st' = visited st @ map url_of vp \<and>
     filter opened_line (logs st') =
       filter opened_line (logs st) @ map (\<lambda>k. msg_opened k (url_of k)) vp \<and>
     (\<exists>new. places st' = places st @ new \<and> named new) \<and>
     driver_open st' = driver_open st \<and> quit_calls st' = quit_calls st"

section \<open>Example inputs\<close>

text \<open>A card with the given text in its title link, a rating of 4,5 and one category.\<close>

definition example_card :: "ustr \<Rightarrow> element" where
  "example_card title =
     Element [''li.minicard-item.js-results-item''] []
       [Element [''a.title-link.js-item-url''] title [],
        Element [''.rating''] (ascii ''4,5'') [],
        Element [''.tags a''] (ascii ''Cafe'') []]"

text \<open>A page without a challenge, with the first container present and the given document.\<close>

definition plain_view :: "element list \<Rightarrow> page_view" where
  "plain_view doc =
     \<lparr> sources = (\<lambda>_. ascii ''<html></html>''),
       present = (\<lambda>s. s = ''ul.js-results-group''),
       document = doc,
       crash = False \<rparr>"

text \<open>The default configuration cut down to three pages.\<close>

definition example_config :: parser_config where
  "example_config = default_config\<lparr>total_pages := 3\<rparr>"

text \<open>A site whose first page shows two cards and whose other pages show none;
  \<open>str.lower\<close> is stood in for by the identity (the pages have no capital letter),
  and \<open>quit\<close> raises.\<close>

definition example_world :: world where
  "example_world =
     \<lparr> site = (\<lambda>u. if u = ascii ''https://zoon.ru/tomsk/restaurants/''
                     then plain_view [example_card (ascii ''Alpha''), example_card (ascii ''Beta'')]
                     else plain_view []),
       lower = (\<lambda>s. s),
       quit_raises = True \<rparr>"

text \<open>A page that shows a challenge at every read, with a container and one card behind it.\<close>

definition stuck_view :: page_view where
  "stuck_view =
     \<lparr> sources = (\<lambda>_. ascii ''<title>checking your browser</title>''),
       present = (\<lambda>s. s = ''ul.js-results-group''),
       document = [example_card (ascii ''Alpha'')],
       crash = False \<rparr>"

text \<open>A site whose first page is stuck behind the challenge and whose other pages show no card.\<close>

definition stuck_world :: world where
  "stuck_world =
     \<lparr> site = (\<lambda>u. if u = ascii ''https://zoon.ru/tomsk/restaurants/'' then stuck_view
                     else plain_view []),
       lower = (\<lambda>s. s),
       quit_raises = False \<rparr>"

text \<open>The default configuration, headless and cut down to three pages.\<close>

definition headless_config :: parser_config where
  "headless_config = default_config\<lparr>total_pages := 3, headless := True\<rparr>"

text \<open>A card whose title link is blank and whose heading carries the name.\<close>

definition blank_link_card :: element where
  "blank_link_card =
     Element [''li.minicard-item.js-results-item''] []
       [Element [''a.title-link.js-item-url''] (ascii ''  '') [],
        Element [''h2''] (ascii ''Alpha'') []]"

text \<open>A site whose first page shows two cards with blank titles and whose other pages show
  none.\<close>

definition blank_world :: world where
  "blank_world =
     \<lparr> site = (\<lambda>u. if u = ascii ''https://zoon.ru/tomsk/restaurants/''
                     then plain_view [example_card (ascii ''  ''), example_card (ascii '' '')]
                     else plain_view []),
       lower = (\<lambda>s. s),
       quit_raises = False \<rparr>"

text \<open>A scraper in the middle of a run: one record without rating and with two categories is
  accumulated, and every file name holds stale text.\<close>

definition seeded_scraper :: scraper where
  "seeded_scraper =
     \<lparr> places = [\<lparr> name = ascii ''Old'', rating = None,
                    categories = [ascii ''Bar'', ascii ''Grill''] \<rparr>],
       logs = [],
       driver_open = True,
       visited = [],
       quit_calls = 0,
       files = (\<lambda>f. Some (TextFile (ascii ''stale''))) \<rparr>"

text \<open>A site on which every navigation fails.\<close>

definition crash_world :: world where
  "crash_world =
     \<lparr> site = (\<lambda>u. (plain_view [])\<lparr>crash := True\<rparr>),
       lower = (\<lambda>s. s),
       quit_raises = False \<rparr>"

section \<open>Properties of the text helpers\<close>

lemma rstrip_chars_decomp:
  "\<exists>t. s = rstrip_chars cs s @ t \<and> set t \<subseteq> set cs"
proof -
  have "rev s = takeWhile (\<lambda>c. c \<in> set cs) (rev s) @ dropWhile (\<lambda>c. c \<in> set cs) (rev s)"
    by simp
  then have "s = rev (dropWhile (\<lambda>c. c \<in> set cs) (rev s)) @ rev (takeWhile (\<lambda>c. c \<in> set cs) (rev s))"
    by (metis rev_append rev_rev_ident)
  moreover have "set (rev (takeWhile (\<lambda>c. c \<in> set cs) (rev s))) \<subseteq> set cs"
    by (auto dest: set_takeWhileD)
  ultimately show ?thesis
    unfolding rstrip_chars_def by blast
qed

lemma rstrip_chars_last:
  "rstrip_chars cs s \<noteq> [] \<Longrightarrow> last (rstrip_chars cs s) \<notin> set cs"
proof -
  assume ne: "rstrip_chars cs s \<noteq> []"
  then have d: "dropWhile (\<lambda>c. c \<in> set cs) (rev s) \<noteq> []"
    by (simp add: rstrip_chars_def)
  then have "hd (dropWhile (\<lambda>c. c \<in> set cs) (rev s)) \<notin> set cs"
    using hd_dropWhile by blast
  with d show ?thesis
    by (simp add: rstrip_chars_def last_rev)
qed

lemma rstrip_slash_decomp:
  "\<exists>n. s = rstrip_chars (ascii ''/'') s @ replicate n 47"
proof -
  obtain t where t: "s = rstrip_chars (ascii ''/'') s @ t" "set t \<subseteq> set (ascii ''/'')"
    using rstrip_chars_decomp by blast
  from t(2) have "set t \<subseteq> {47}"
    by (simp add: ascii_def)
  then have "t = replicate (length t) 47"
    by (induction t) auto
  with t(1) show ?thesis by metis
qed

lemma digit_list_digits: "d \<in> set (digit_list n) \<Longrightarrow> d < 10"
proof (induction n rule: digit_list.induct)
  case (1 n)
  then show ?case
    by (subst (asm) (2) digit_list.simps) (auto split: if_splits)
qed

lemma digit_list_nonempty: "digit_list n \<noteq> []"
  by (subst digit_list.simps) simp

lemma foldl_digit_list: "foldl (\<lambda>a d. 10 * a + d) 0 (digit_list n) = n"
proof (induction n rule: digit_list.induct)
  case (1 n)
  show ?case
  proof (cases "n < 10")
    case True
    then show ?thesis by (subst digit_list.simps) simp
  next
    case False
    with 1 show ?thesis by (subst digit_list.simps) simp
  qed
qed

lemma dec_value_str_nat: "dec_value (str_nat n) = n"
proof -
  have "foldl (\<lambda>a c. 10 * a + (c - 48)) k (map (\<lambda>d. 48 + d) ds) = foldl (\<lambda>a d. 10 * a + d) k ds"
    for k :: nat and ds
    by (induction ds arbitrary: k) simp_all
  then show ?thesis
    by (simp add: dec_value_def str_nat_def foldl_digit_list)
qed

lemma str_nat_digits: "c \<in> set (str_nat n) \<Longrightarrow> 48 \<le> c \<and> c \<le> 57"
  by (auto simp: str_nat_def dest: digit_list_digits)

section \<open>Page URL: the claim\<close>

text \<open>
  C4. For every page number \<open>k \<ge> 1\<close> the page-URL function returns the bare base URL
  when \<open>k = 1\<close>; for \<open>k > 1\<close> it returns the base URL without its trailing slashes
  (the part \<open>b\<close> of the base URL that is left when the run of \<open>/\<close> at its end is cut off),
  followed by \<open>/page-\<close>, the decimal numeral of \<open>k\<close> and \<open>/\<close>. This holds for the
  configured variant and, with the fixed base URL, for the standalone script.
\<close>

theorem page_url_spec:
  "page_url cfg 1 = city_url cfg \<and>
   script_page_url 1 = CITY_URL \<and>
   (1 < k \<longrightarrow>
      (\<exists>b n. city_url cfg = b @ replicate n 47 \<and> (b = [] \<or> last b \<noteq> 47) \<and>
         page_url cfg k = b @ ascii ''/page-'' @ str_int k @ ascii ''/'') \<and>
      script_page_url k =
         ascii ''https://zoon.ru/tomsk/restaurants'' @ ascii ''/page-'' @ str_int k @ ascii ''/'' \<and>
      str_int k \<noteq> [] \<and> (\<forall>c \<in> set (str_int k). 48 \<le> c \<and> c \<le> 57) \<and>
      int (dec_value (str_int k)) = k)"
proof (intro conjI impI)
  show "page_url cfg 1 = city_url cfg"
    by (simp add: page_url_def)
  show "script_page_url 1 = CITY_URL"
    by (simp add: script_page_url_def)
next
  assume k: "1 < k"
  let ?b = "rstrip_chars (ascii ''/'') (city_url cfg)"
  obtain n where n: "city_url cfg = ?b @ replicate n 47"
    using rstrip_slash_decomp by blast
  have "?b = [] \<or> last ?b \<noteq> 47"
    using rstrip_chars_last [of "ascii ''/''" "city_url cfg"] by (auto simp: ascii_def)
  moreover have "page_url cfg k = ?b @ ascii ''/page-'' @ str_int k @ ascii ''/''"
    using k by (simp add: page_url_def)
  ultimately show "\<exists>b n. city_url cfg = b @ replicate n 47 \<and> (b = [] \<or> last b \<noteq> 47) \<and>
      page_url cfg k = b @ ascii ''/page-'' @ str_int k @ ascii ''/''"
    using n by blast
  have "rstrip_chars (ascii ''/'') CITY_URL = ascii ''https://zoon.ru/tomsk/restaurants''"
    by (simp add: rstrip_chars_def CITY_URL_def ascii_def)
  then show "script_page_url k =
      ascii ''https://zoon.ru/tomsk/restaurants'' @ ascii ''/page-'' @ str_int k @ ascii ''/''"
    using k by (simp add: script_page_url_def)
  show "str_int k \<noteq> []"
    using k by (simp add: str_int_def str_nat_def digit_list_nonempty)
  show "\<forall>c \<in> set (str_int k). 48 \<le> c \<and> c \<le> 57"
    using k str_nat_digits by (auto simp: str_int_def)
  show "int (dec_value (str_int k)) = k"
    using k by (simp add: str_int_def dec_value_str_nat)
qed

theorem page_url_spec_witness:
  "(1::int) < 2 \<and>
   page_url default_config 1 = ascii ''https://zoon.ru/tomsk/restaurants/'' \<and>
   page_url default_config 2 = ascii ''https://zoon.ru/tomsk/restaurants/page-2/'' \<and>
   script_page_url 2 = ascii ''https://zoon.ru/tomsk/restaurants/page-2/''"
proof -
  have s: "str_int 2 = ascii ''2''"
    by (simp add: str_int_def str_nat_def digit_list.simps ascii_def)
  have r: "rstrip_chars (ascii ''/'') (city_url default_config) = ascii ''https://zoon.ru/tomsk/restaurants''"
    by (simp add: rstrip_chars_def default_config_def ascii_def)
  have u: "page_url default_config 2 = ascii ''https://zoon.ru/tomsk/restaurants/page-2/''"
    by (simp add: page_url_def r s) (simp add: ascii_def)
  from page_url_spec [of default_config 2]
  have "page_url default_config 1 = city_url default_config"
    and "script_page_url 2 =
      ascii ''https://zoon.ru/tomsk/restaurants'' @ ascii ''/page-'' @ str_int 2 @ ascii ''/''"
    by simp_all
  then show ?thesis
    using u by (simp add: default_config_def s) (simp add: ascii_def)
qed

section \<open>Rating extraction\<close>

lemma bit_length_0: "bit_length 0 = 0" by (simp add: bit_length.simps)
lemma bit_length_1: "bit_length 1 = 1" "bit_length (Suc 0) = 1" by (simp_all add: bit_length.simps)
lemma bit_length_numeral: "bit_length (numeral k) = Suc (bit_length (numeral k div 2))"
  by (subst bit_length.simps) simp
lemmas bit_length_eval = bit_length_0 bit_length_1 bit_length_numeral

lemma decimal_digit_low:
  "c < 1632 \<Longrightarrow> decimal_digit c = (if 48 \<le> c \<and> c \<le> 57 then Some (c - 48) else None)"
  by (simp add: decimal_digit_def nd_zeros_def)
lemma is_decimal_low: "c < 1632 \<Longrightarrow> is_decimal c = (48 \<le> c \<and> c \<le> 57)"
  by (simp add: is_decimal_def decimal_digit_low)

lemma plus_cls_no_match: "s = [] \<or> \<not> p (hd s) \<Longrightarrow> plus_cls p s = []"
  by (cases s) auto

lemma plus_cls_greedy:
  "p c \<Longrightarrow> \<exists>rs. plus_cls p (c # cs) = dropWhile p cs # rs \<and> (\<forall>r \<in> set rs. r \<noteq> [] \<and> p (hd r))"
proof (induction cs arbitrary: c)
  case Nil
  then show ?case by simp
next
  case (Cons d ds)
  show ?case
  proof (cases "p d")
    case True
    from Cons.IH [OF True] obtain rs where
      rs: "plus_cls p (d # ds) = dropWhile p ds # rs" "\<forall>r \<in> set rs. r \<noteq> [] \<and> p (hd r)"
      by blast
    have "plus_cls p (c # d # ds) = dropWhile p (d # ds) # (rs @ [d # ds])"
      using Cons.prems True rs(1) by simp
    moreover have "\<forall>r \<in> set (rs @ [d # ds]). r \<noteq> [] \<and> p (hd r)"
      using rs(2) True by simp
    ultimately show ?thesis by blast
  next
    case False
    then show ?thesis using Cons.prems by simp
  qed
qed

lemma concat_after_plus_cls:
  assumes "p c" and "\<And>r. r \<noteq> [] \<Longrightarrow> p (hd r) \<Longrightarrow> k r = []"
  shows "concat (map k (plus_cls p (c # cs))) = k (dropWhile p cs)"
proof -
  obtain rs where
    rs: "plus_cls p (c # cs) = dropWhile p cs # rs" "\<forall>r \<in> set rs. r \<noteq> [] \<and> p (hd r)"
    using plus_cls_greedy [of p c cs] assms(1) by blast
  have "concat (map k rs) = []"
    using rs(2) assms(2) by (induction rs) auto
  with rs(1) show ?thesis by simp
qed

lemma take_upto_dropWhile: "take (length s - length (dropWhile p s)) s = takeWhile p s"
proof -
  have "length s = length (takeWhile p s) + length (dropWhile p s)"
    by (metis length_append takeWhile_dropWhile_id)
  then have "length s - length (dropWhile p s) = length (takeWhile p s)" by simp
  then show ?thesis by (metis append_eq_conv_conj takeWhile_dropWhile_id)
qed

lemma rests_tail:
  "rests (Seq (Cls (\<lambda>c. c = 46 \<or> c = 44)) (PlusCls is_decimal)) a =
     (if frac_follows a then plus_cls is_decimal (tl a) else [])"
  by (cases a) (auto simp: frac_follows_def plus_cls_no_match)

lemma rests_rating_rx_digit:
  assumes "is_decimal c"
  shows "\<exists>rs. rests rating_rx (c # cs) =
     (if frac_follows (dropWhile is_decimal cs)
      then dropWhile is_decimal (tl (tl (dropWhile is_decimal cs)))
      else dropWhile is_decimal cs) # rs"
proof -
  let ?a = "dropWhile is_decimal cs"
  define k where "k = rests (Seq (Cls (\<lambda>c. c = 46 \<or> c = 44)) (PlusCls is_decimal))"
  have k_eq: "k a = (if frac_follows a then plus_cls is_decimal (tl a) else [])" for a
    unfolding k_def by (rule rests_tail)
  have unfold: "rests rating_rx s = concat (map k (plus_cls is_decimal s)) @ plus_cls is_decimal s" for s
    by (simp add: rating_rx_def k_def)
  have nd: "\<not> is_decimal 46" "\<not> is_decimal 44"
    by (simp_all add: is_decimal_low)
  have k0: "k r = []" if "r \<noteq> []" "is_decimal (hd r)" for r
    using that nd by (auto simp: k_eq frac_follows_def)
  have first: "concat (map k (plus_cls is_decimal (c # cs))) = k ?a"
    using assms k0 by (rule concat_after_plus_cls)
  obtain rs where rs: "plus_cls is_decimal (c # cs) = ?a # rs"
    using plus_cls_greedy [of is_decimal c cs] assms by blast
  have split: "rests rating_rx (c # cs) = k ?a @ ?a # rs"
    using first by (simp only: unfold) (simp only: rs)
  show ?thesis
  proof (cases "frac_follows ?a")
    case True
    then obtain x y ys where a: "?a = x # y # ys" "is_decimal y"
      by (cases ?a; cases "tl ?a") (auto simp: frac_follows_def)
    obtain rs' where "plus_cls is_decimal (y # ys) = dropWhile is_decimal ys # rs'"
      using plus_cls_greedy [of is_decimal y ys] a(2) by blast
    then have "k ?a = dropWhile is_decimal (tl (tl ?a)) # rs'"
      using True a(1) by (simp add: k_eq)
    then show ?thesis
      using True by (simp add: split)
  next
    case False
    then have "k ?a = []" by (simp add: k_eq)
    then show ?thesis
      using False by (simp add: split)
  qed
qed

lemma rests_rating_rx_other: "s = [] \<or> \<not> is_decimal (hd s) \<Longrightarrow> rests rating_rx s = []"
  by (cases s) (auto simp: rating_rx_def)

lemma re_search_rating_rx: "re_search rating_rx t = scan_literal t"
proof (induction t)
  case Nil
  then show ?case by (simp add: scan_literal_def rests_rating_rx_other)
next
  case (Cons c cs)
  show ?case
  proof (cases "is_decimal c")
    case False
    then have "rests rating_rx (c # cs) = []" by (simp add: rests_rating_rx_other)
    then show ?thesis using Cons False by (simp add: scan_literal_def)
  next
    case True
    let ?a = "dropWhile is_decimal cs"
    obtain rs where rs: "rests rating_rx (c # cs) =
        (if frac_follows ?a then dropWhile is_decimal (tl (tl ?a)) else ?a) # rs"
      using rests_rating_rx_digit [of c cs] True by blast
    have ip: "takeWhile is_decimal (c # cs) = c # takeWhile is_decimal cs"
      using True by simp
    show ?thesis
    proof (cases "frac_follows ?a")
      case False
      have "take (length (c # cs) - length (dropWhile is_decimal (c # cs))) (c # cs)
          = takeWhile is_decimal (c # cs)"
        by (rule take_upto_dropWhile)
      then have "take (length (c # cs) - length ?a) (c # cs) = c # takeWhile is_decimal cs"
        using True by simp
      then show ?thesis
        using rs False True by (simp add: scan_literal_def)
    next
      case fr: True
      then obtain x xs where a: "?a = x # xs" "xs \<noteq> []"
        by (cases ?a) (auto simp: frac_follows_def)
      let ?fp = "takeWhile is_decimal xs"
      let ?rest = "dropWhile is_decimal xs"
      have hd_xs: "is_decimal (hd xs)" using fr a by (simp add: frac_follows_def)
      have drop2: "dropWhile is_decimal (tl xs) = ?rest"
        using a(2) hd_xs by (cases xs) auto
      define u where "u = (c # takeWhile is_decimal cs) @ x # ?fp"
      have whole: "c # cs = u @ ?rest"
        unfolding u_def using a(1) by (metis append.assoc append_Cons takeWhile_dropWhile_id)
      have "take (length (c # cs) - length ?rest) (c # cs) = u"
        by (simp only: whole) simp
      then have "take (length (c # cs) - length ?rest) (c # cs) = (c # takeWhile is_decimal cs) @ x # ?fp"
        by (simp only: u_def)
      then show ?thesis
        using rs fr True a drop2 by (simp add: scan_literal_def)
    qed
  qed
qed


lemma is_decimal_not_sep: "is_decimal c \<Longrightarrow> c \<noteq> 44 \<and> c \<noteq> 46"
  using is_decimal_low [of 44] is_decimal_low [of 46] by auto

lemma replace_digits: "list_all is_decimal s \<Longrightarrow> replace_char 44 46 s = s"
  by (induction s) (auto simp: replace_char_def dest: is_decimal_not_sep)

lemma py_float_integer:
  assumes "ip \<noteq> []" "list_all is_decimal ip"
  shows "py_float ip = Inr (double_of_decimal (digits_value ip) 0)"
proof -
  have tw: "takeWhile is_decimal ip = ip" and dw: "dropWhile is_decimal ip = []"
    using assms(2) by (simp_all add: list_all_iff)
  show ?thesis
    unfolding py_float_def Let_def tw dw using assms(1) by simp
qed

lemma py_float_fraction:
  assumes "ip \<noteq> []" "list_all is_decimal ip" "fp \<noteq> []" "list_all is_decimal fp"
  shows "py_float (ip @ 46 # fp) = Inr (double_of_decimal (digits_value (ip @ fp)) (length fp))"
proof -
  have nd: "\<not> is_decimal 46" by (simp add: is_decimal_low)
  have tw: "takeWhile is_decimal (ip @ 46 # fp) = ip"
    using assms(2) nd by (simp add: list_all_iff takeWhile_append2)
  have dw: "dropWhile is_decimal (ip @ 46 # fp) = 46 # fp"
    using assms(2) nd by (simp add: list_all_iff dropWhile_append2)
  show ?thesis
    unfolding py_float_def Let_def tw dw using assms(1,3,4) by simp
qed

lemma list_all_takeWhile: "list_all p (takeWhile p s)"
  by (induction s) auto

lemma rating_of_text_scan:
  "rating_of_text t =
     Inr (map_option (\<lambda>(ip, fp). double_of_decimal (digits_value (ip @ fp)) (length fp))
            (scan_number t))"
proof -
  let ?r = "dropWhile (\<lambda>c. \<not> is_decimal c) t"
  let ?ip = "takeWhile is_decimal ?r"
  let ?a = "dropWhile is_decimal ?r"
  show ?thesis
  proof (cases "?r = []")
    case True
    then show ?thesis
      by (simp add: rating_of_text_def re_search_rating_rx scan_literal_def scan_number_def Let_def)
  next
    case False
    then have "is_decimal (hd ?r)"
      using hd_dropWhile [of "\<lambda>c. \<not> is_decimal c" t] by simp
    with False have ip: "?ip \<noteq> []" "list_all is_decimal ?ip"
      by (cases ?r, simp_all add: list_all_takeWhile)
    show ?thesis
    proof (cases "frac_follows ?a")
      case fr: True
      let ?fp = "takeWhile is_decimal (tl ?a)"
      have fp: "?fp \<noteq> []" "list_all is_decimal ?fp"
        using fr by (cases "tl ?a", simp_all add: frac_follows_def list_all_takeWhile)
      have sep: "hd ?a = 46 \<or> hd ?a = 44"
        using fr by (simp add: frac_follows_def)
      have "replace_char 44 46 (?ip @ hd ?a # ?fp) = ?ip @ 46 # ?fp"
        using replace_digits [OF ip(2)] replace_digits [OF fp(2)] sep
        by (auto simp: replace_char_def)
      moreover have "re_search rating_rx t = Some (?ip @ hd ?a # ?fp)"
        using False fr by (simp add: re_search_rating_rx scan_literal_def Let_def)
      moreover have "scan_number t = Some (?ip, ?fp)"
        using False fr by (simp add: scan_number_def Let_def)
      ultimately show ?thesis
        using py_float_fraction [OF ip fp] by (simp add: rating_of_text_def)
    next
      case nf: False
      have "re_search rating_rx t = Some ?ip"
        using False nf by (simp add: re_search_rating_rx scan_literal_def Let_def)
      moreover have "scan_number t = Some (?ip, [])"
        using False nf by (simp add: scan_number_def Let_def)
      ultimately show ?thesis
        using py_float_integer [OF ip] replace_digits [OF ip(2)]
        by (simp add: rating_of_text_def)
    qed
  qed
qed

lemma double_45: "double_of_decimal 45 (Suc 0) = Finite (9/2)"
  by (simp add: double_of_decimal_def Let_def bit_length_eval)
lemma double_9: "double_of_decimal 9 0 = Finite 9"
  by (simp add: double_of_decimal_def Let_def bit_length_eval)

lemma script_parse_rating_eq: "script_parse_rating crd = extract_rating crd"
  by (simp add: script_parse_rating_def extract_rating_def rating_of_text_def RATING_SELECTOR_def
      Let_def split: sum.splits)


section \<open>Category extraction\<close>

lemma set_first_occurrences: "set (first_occurrences xs) = set xs"
  by (induction xs rule: first_occurrences.induct) auto

lemma distinct_first_occurrences: "distinct (first_occurrences xs)"
  by (induction xs rule: first_occurrences.induct) (auto simp: set_first_occurrences)

lemma categories_loop_fst:
  "fst (categories_loop ts (cats, seen)) =
     cats @ first_occurrences
       (filter (\<lambda>x. x \<noteq> [] \<and> x \<notin> seen) (map (strip_chars SEPARATORS) ts))"
proof (induction ts arbitrary: cats seen)
  case Nil
  then show ?case by simp
next
  case (Cons t ts)
  let ?x = "strip_chars SEPARATORS t"
  show ?case
  proof (cases "?x \<noteq> [] \<and> ?x \<notin> seen")
    case True
    have "filter (\<lambda>y. y \<noteq> ?x) (filter (\<lambda>x. x \<noteq> [] \<and> x \<notin> seen) (map (strip_chars SEPARATORS) ts))
        = filter (\<lambda>x. x \<noteq> [] \<and> x \<notin> insert ?x seen) (map (strip_chars SEPARATORS) ts)"
      by (auto intro: filter_cong)
    then show ?thesis
      using True Cons.IH [of "cats @ [?x]" "insert ?x seen"] by (simp add: Let_def)
  next
    case False
    then show ?thesis
      using Cons.IH [of cats seen] by (auto simp: Let_def)
  qed
qed

lemma categories_of_texts_eq:
  "categories_of_texts ts =
     first_occurrences (filter (\<lambda>x. x \<noteq> []) (map (strip_chars SEPARATORS) ts))"
  by (simp add: categories_of_texts_def categories_loop_fst)

lemma lstrip_chars_decomp: "\<exists>a. s = a @ lstrip_chars cs s \<and> set a \<subseteq> set cs"
proof -
  have "s = takeWhile (\<lambda>c. c \<in> set cs) s @ lstrip_chars cs s"
    by (simp add: lstrip_chars_def)
  moreover have "set (takeWhile (\<lambda>c. c \<in> set cs) s) \<subseteq> set cs"
    by (auto dest: set_takeWhileD)
  ultimately show ?thesis by blast
qed

lemma lstrip_chars_hd: "lstrip_chars cs s \<noteq> [] \<Longrightarrow> hd (lstrip_chars cs s) \<notin> set cs"
  unfolding lstrip_chars_def using hd_dropWhile by blast

lemma rstrip_chars_hd:
  assumes "rstrip_chars cs s \<noteq> []" "s \<noteq> [] \<Longrightarrow> hd s \<notin> set cs"
  shows "hd (rstrip_chars cs s) = hd s"
proof -
  obtain t where t: "s = rstrip_chars cs s @ t"
    using rstrip_chars_decomp by blast
  then show ?thesis using assms(1) by (metis hd_append2)
qed

lemma strip_chars_spec:
  "\<exists>a b. t = a @ strip_chars cs t @ b \<and> set a \<subseteq> set cs \<and> set b \<subseteq> set cs \<and>
     (strip_chars cs t = [] \<or>
      hd (strip_chars cs t) \<notin> set cs \<and> last (strip_chars cs t) \<notin> set cs)"
proof -
  let ?l = "lstrip_chars cs t"
  obtain a where a: "t = a @ ?l" "set a \<subseteq> set cs"
    using lstrip_chars_decomp by blast
  obtain b where b: "?l = rstrip_chars cs ?l @ b" "set b \<subseteq> set cs"
    using rstrip_chars_decomp by blast
  have "hd (strip_chars cs t) \<notin> set cs \<and> last (strip_chars cs t) \<notin> set cs"
    if ne: "strip_chars cs t \<noteq> []"
  proof -
    from ne have l: "?l \<noteq> []" by (auto simp: strip_chars_def rstrip_chars_def)
    have "hd (rstrip_chars cs ?l) = hd ?l"
      using ne b(1) by (metis hd_append2 strip_chars_def)
    then show ?thesis
      using lstrip_chars_hd [OF l] rstrip_chars_last [of cs ?l] ne by (simp add: strip_chars_def)
  qed
  moreover have "t = a @ strip_chars cs t @ b"
    using a(1) b(1) by (simp add: strip_chars_def)
  ultimately show ?thesis
    using a(2) b(2) by blast
qed

lemma script_parse_categories_eq: "script_parse_categories crd = extract_categories crd"
  by (simp add: script_parse_categories_def extract_categories_def categories_of_texts_def
      FEATURES_SELECTOR_def)

text \<open>
  C6. For every sequence of texts of category elements, the extracted categories are the
  texts with the separator characters and blanks stripped from both ends, without the empty
  ones, each kept at its first occurrence in the order met: the list has no duplicates and
  holds exactly the non-empty stripped texts. Stripping removes a prefix and a suffix made of
  separator characters and leaves a text that neither begins nor ends with one. The script
  extracts the same categories. Texts that yield A, B, A, C give the list A, B, C.
\<close>

theorem categories_of_texts_spec:
  "categories_of_texts ts =
     first_occurrences (filter (\<lambda>x. x \<noteq> []) (map (strip_chars SEPARATORS) ts)) \<and>
   distinct (categories_of_texts ts) \<and>
   set (categories_of_texts ts) = strip_chars SEPARATORS ` set ts - {[]} \<and>
   (\<exists>a b. t = a @ strip_chars SEPARATORS t @ b \<and>
      set a \<subseteq> set SEPARATORS \<and> set b \<subseteq> set SEPARATORS \<and>
      (strip_chars SEPARATORS t = [] \<or>
       hd (strip_chars SEPARATORS t) \<notin> set SEPARATORS \<and>
       last (strip_chars SEPARATORS t) \<notin> set SEPARATORS)) \<and>
   script_parse_categories crd = extract_categories crd \<and>
   categories_of_texts
     [ascii '' - A'', ascii ''B '' @ [183], [8212, 32] @ ascii ''A'' @ [32, 8212], [9] @ ascii ''C'' @ [10]]
     = [ascii ''A'', ascii ''B'', ascii ''C'']"
proof (intro conjI)
  show eq: "categories_of_texts ts =
      first_occurrences (filter (\<lambda>x. x \<noteq> []) (map (strip_chars SEPARATORS) ts))"
    by (rule categories_of_texts_eq)
  show "distinct (categories_of_texts ts)"
    by (simp add: eq distinct_first_occurrences)
  show "set (categories_of_texts ts) = strip_chars SEPARATORS ` set ts - {[]}"
    by (auto simp: eq set_first_occurrences)
  show "\<exists>a b. t = a @ strip_chars SEPARATORS t @ b \<and>
      set a \<subseteq> set SEPARATORS \<and> set b \<subseteq> set SEPARATORS \<and>
      (strip_chars SEPARATORS t = [] \<or>
       hd (strip_chars SEPARATORS t) \<notin> set SEPARATORS \<and>
       last (strip_chars SEPARATORS t) \<notin> set SEPARATORS)"
    by (rule strip_chars_spec)
  show "script_parse_categories crd = extract_categories crd"
    by (rule script_parse_categories_eq)
  show "categories_of_texts
     [ascii '' - A'', ascii ''B '' @ [183], [8212, 32] @ ascii ''A'' @ [32, 8212], [9] @ ascii ''C'' @ [10]]
     = [ascii ''A'', ascii ''B'', ascii ''C'']"
    by (simp add: categories_of_texts_def strip_chars_def lstrip_chars_def rstrip_chars_def
        SEPARATORS_def ascii_def Let_def)
qed

section \<open>Card parsing and the page step\<close>

lemma py_strip_empty: "py_strip t = [] \<longleftrightarrow> list_all is_space t"
proof -
  have "dropWhile is_space (rev (dropWhile is_space t)) = [] \<longleftrightarrow> dropWhile is_space t = []"
  proof
    assume "dropWhile is_space (rev (dropWhile is_space t)) = []"
    then have all: "\<forall>c \<in> set (dropWhile is_space t). is_space c"
      by (simp add: dropWhile_eq_Nil_conv)
    show "dropWhile is_space t = []"
    proof (rule ccontr)
      assume ne: "dropWhile is_space t \<noteq> []"
      then have "\<not> is_space (hd (dropWhile is_space t))" by (rule hd_dropWhile)
      moreover have "hd (dropWhile is_space t) \<in> set (dropWhile is_space t)"
        using ne by simp
      ultimately show False using all by blast
    qed
  next
    assume e: "dropWhile is_space t = []"
    show "dropWhile is_space (rev (dropWhile is_space t)) = []"
      unfolding e by simp
  qed
  then show ?thesis
    by (simp add: py_strip_def dropWhile_eq_Nil_conv list_all_iff)
qed

lemma extract_name_from_empty:
  "extract_name_from sels crd = [] \<longleftrightarrow> list_all (blank_title crd) sels"
  by (induction sels) (auto simp: blank_title_def Let_def py_strip_empty split: sum.splits)

lemma rating_of_text_total: "\<exists>r. rating_of_text t = Inr r"
  by (simp add: rating_of_text_scan)

lemma extract_rating_total: "\<exists>r. extract_rating crd = Inr r"
  using rating_of_text_total by (auto simp: extract_rating_def split: sum.splits)

lemma parse_card_total: "\<exists>p. parse_card crd = Inr p \<and> name p = extract_name crd"
  using extract_rating_total [of crd] by (auto simp: parse_card_def)

lemma script_parse_card_total: "\<exists>p. script_parse_card crd = Inr p \<and> name p = script_parse_name crd"
  using extract_rating_total [of crd] by (auto simp: script_parse_card_def script_parse_rating_eq)

lemma parse_all: "\<exists>ps. map parse_card cards = map Inr ps"
proof (induction cards)
  case Nil
  then show ?case by simp
next
  case (Cons c cards)
  then obtain ps where "map parse_card cards = map Inr ps" by blast
  moreover obtain p where "parse_card c = Inr p" using parse_card_total by blast
  ultimately have "map parse_card (c # cards) = map Inr (p # ps)" by simp
  then show ?case by blast
qed

lemma append_loop_result:
  "map parse_card cards = map Inr ps \<Longrightarrow>
   append_loop cards st = (None, st\<lparr>places := places st @ filter (\<lambda>p. name p \<noteq> []) ps\<rparr>)"
proof (induction cards arbitrary: ps st)
  case Nil
  then show ?case by simp
next
  case (Cons c cards)
  then obtain p ps' where ps: "ps = p # ps'" "parse_card c = Inr p" "map parse_card cards = map Inr ps'"
    by (cases ps) auto
  show ?case
    using Cons.IH [OF ps(3)] ps by simp
qed

lemma append_cards_result:
  "map parse_card cards = map Inr ps \<Longrightarrow>
   append_cards cards st =
     (Inr (int (length (filter (\<lambda>p. name p \<noteq> []) ps))),
      st\<lparr>places := places st @ filter (\<lambda>p. name p \<noteq> []) ps\<rparr>)"
  by (simp add: append_cards_def append_loop_result)

lemma log_append_fields [simp]:
  "places (log_append l st) = places st"
  "logs (log_append l st) = logs st @ [l]"
  "driver_open (log_append l st) = driver_open st"
  "visited (log_append l st) = visited st"
  "quit_calls (log_append l st) = quit_calls st"
  "files (log_append l st) = files st"
  by (simp_all add: log_append_def)

lemma save_partial_fields [simp]:
  "places (save_partial page st) = places st"
  "logs (save_partial page st) = logs st"
  "driver_open (save_partial page st) = driver_open st"
  "visited (save_partial page st) = visited st"
  "quit_calls (save_partial page st) = quit_calls st"
  by (simp_all add: save_partial_def Let_def)

lemma outcome_line_msg_page [simp]: "outcome_line (msg_page page tail)"
  by (simp add: outcome_line_def msg_page_def)

lemma outcome_line_msg_success [simp]: "outcome_line (msg_success page a b c)"
  by (simp add: outcome_line_def msg_success_def)

lemma opened_line_msg_opened [simp]: "opened_line (msg_opened page url)"
  by (simp add: opened_line_def msg_opened_def)

lemma outcome_not_opened: "outcome_line l \<Longrightarrow> \<not> opened_line l"
proof
  assume a: "outcome_line l" "opened_line l"
  then have "l \<noteq> []" by (auto simp: outcome_line_def txt_page_def)
  then obtain c cs where l: "l = c # cs" by (cases l) auto
  from a show False
    unfolding l by (simp add: outcome_line_def opened_line_def txt_page_def txt_opened_def)
qed

lemma handle_protect_screen_clear:
  "\<not> challenged_at w view 0 \<Longrightarrow> handle_protect_screen w cfg page view st = (True, st)"
  by (simp add: handle_protect_screen_def challenged_at_def)

lemma handle_protect_screen_polled:
  "challenged_at w view 0 \<Longrightarrow>
   poll (challenged_at w view) 1 (nat (protect_poll_attempts cfg)) \<Longrightarrow>
   handle_protect_screen w cfg page view st =
     (True, log_append (msg_page page txt_protect_wait) st)"
  by (simp add: handle_protect_screen_def challenged_at_def [abs_def] Let_def)

lemma handle_protect_screen_headless:
  "challenged_at w view 0 \<Longrightarrow>
   \<not> poll (challenged_at w view) 1 (nat (protect_poll_attempts cfg)) \<Longrightarrow>
   headless cfg \<Longrightarrow>
   handle_protect_screen w cfg page view st =
     (False, log_append (msg_page page txt_protect_failed)
               (log_append (msg_page page txt_protect_wait) st))"
  by (simp add: handle_protect_screen_def challenged_at_def [abs_def] Let_def)

lemma handle_protect_screen_manual:
  "challenged_at w view 0 \<Longrightarrow>
   \<not> poll (challenged_at w view) 1 (nat (protect_poll_attempts cfg)) \<Longrightarrow>
   \<not> headless cfg \<Longrightarrow>
   poll (challenged_at w view) (1 + nat (protect_poll_attempts cfg))
     (nat (protect_manual_retry_attempts cfg)) \<Longrightarrow>
   handle_protect_screen w cfg page view st =
     (True, log_append (msg_page page txt_manual)
              (log_append (msg_page page txt_protect_wait) st))"
  by (simp add: handle_protect_screen_def challenged_at_def [abs_def] Let_def)

lemma handle_protect_screen_manual_failed:
  "challenged_at w view 0 \<Longrightarrow>
   \<not> poll (challenged_at w view) 1 (nat (protect_poll_attempts cfg)) \<Longrightarrow>
   \<not> headless cfg \<Longrightarrow>
   \<not> poll (challenged_at w view) (1 + nat (protect_poll_attempts cfg))
       (nat (protect_manual_retry_attempts cfg)) \<Longrightarrow>
   handle_protect_screen w cfg page view st =
     (False, log_append (msg_page page txt_manual_failed)
               (log_append (msg_page page txt_manual)
                  (log_append (msg_page page txt_protect_wait) st)))"
  by (simp add: handle_protect_screen_def challenged_at_def [abs_def] Let_def)

lemma log_append_as_update: "log_append l (st\<lparr>logs := logs st @ ls\<rparr>) = st\<lparr>logs := logs st @ (ls @ [l])\<rparr>"
  by (simp add: log_append_def)

lemma log_append_as_update0: "log_append l st = st\<lparr>logs := logs st @ [l]\<rparr>"
  by (simp add: log_append_def)

lemma handle_protect_screen_effect:
  "\<exists>ls. snd (handle_protect_screen w cfg page view st) = st\<lparr>logs := logs st @ ls\<rparr> \<and>
        list_all outcome_line ls"
proof -
  let ?p = "poll (challenged_at w view) 1 (nat (protect_poll_attempts cfg))"
  let ?m = "poll (challenged_at w view) (1 + nat (protect_poll_attempts cfg))
     (nat (protect_manual_retry_attempts cfg))"
  consider (clear) "\<not> challenged_at w view 0"
    | (polled) "challenged_at w view 0" ?p
    | (headless) "challenged_at w view 0" "\<not> ?p" "headless cfg"
    | (manual) "challenged_at w view 0" "\<not> ?p" "\<not> headless cfg" ?m
    | (failed) "challenged_at w view 0" "\<not> ?p" "\<not> headless cfg" "\<not> ?m"
    by blast
  then show ?thesis
  proof cases
    case clear
    have "st = st\<lparr>logs := logs st @ []\<rparr> \<and> list_all outcome_line []" by simp
    then show ?thesis
      unfolding handle_protect_screen_clear [OF clear] snd_conv by (rule exI)
  next
    case polled
    have "log_append (msg_page page txt_protect_wait) st =
        st\<lparr>logs := logs st @ [msg_page page txt_protect_wait]\<rparr> \<and>
        list_all outcome_line [msg_page page txt_protect_wait]"
      by (simp add: log_append_def)
    then show ?thesis
      unfolding handle_protect_screen_polled [OF polled] snd_conv by (rule exI)
  next
    case headless
    have "log_append (msg_page page txt_protect_failed) (log_append (msg_page page txt_protect_wait) st) =
        st\<lparr>logs := logs st @ [msg_page page txt_protect_wait, msg_page page txt_protect_failed]\<rparr> \<and>
        list_all outcome_line [msg_page page txt_protect_wait, msg_page page txt_protect_failed]"
      by (simp add: log_append_def)
    then show ?thesis
      unfolding handle_protect_screen_headless [OF headless] snd_conv by (rule exI)
  next
    case manual
    have "log_append (msg_page page txt_manual) (log_append (msg_page page txt_protect_wait) st) =
        st\<lparr>logs := logs st @ [msg_page page txt_protect_wait, msg_page page txt_manual]\<rparr> \<and>
        list_all outcome_line [msg_page page txt_protect_wait, msg_page page txt_manual]"
      by (simp add: log_append_def)
    then show ?thesis
      unfolding handle_protect_screen_manual [OF manual] snd_conv by (rule exI)
  next
    case failed
    have "log_append (msg_page page txt_manual_failed)
           (log_append (msg_page page txt_manual) (log_append (msg_page page txt_protect_wait) st)) =
        st\<lparr>logs := logs st @ [msg_page page txt_protect_wait, msg_page page txt_manual,
              msg_page page txt_manual_failed]\<rparr> \<and>
        list_all outcome_line [msg_page page txt_protect_wait, msg_page page txt_manual,
              msg_page page txt_manual_failed]"
      by (simp add: log_append_def)
    then show ?thesis
      unfolding handle_protect_screen_manual_failed [OF failed] snd_conv by (rule exI)
  qed
qed

lemma wait_cards_container_found:
  "list_ex (present view) CONTAINER_CANDIDATES \<Longrightarrow> wait_cards_container view page st = (True, st)"
  by (simp add: wait_cards_container_def)

lemma wait_cards_container_missing:
  "\<not> list_ex (present view) CONTAINER_CANDIDATES \<Longrightarrow>
   wait_cards_container view page st = (False, log_append (msg_page page txt_no_container) st)"
  by (simp add: wait_cards_container_def)

lemma wait_cards_container_effect:
  "\<exists>ls. snd (wait_cards_container view page st) = st\<lparr>logs := logs st @ ls\<rparr> \<and>
        list_all outcome_line ls"
proof (cases "list_ex (present view) CONTAINER_CANDIDATES")
  case True
  have "st = st\<lparr>logs := logs st @ []\<rparr> \<and> list_all outcome_line []" by simp
  then show ?thesis
    unfolding wait_cards_container_found [OF True] snd_conv by (rule exI)
next
  case False
  have "log_append (msg_page page txt_no_container) st =
      st\<lparr>logs := logs st @ [msg_page page txt_no_container]\<rparr> \<and>
      list_all outcome_line [msg_page page txt_no_container]"
    by (simp add: log_append_def)
  then show ?thesis
    unfolding wait_cards_container_missing [OF False] snd_conv by (rule exI)
qed

lemma process_page_crash:
  "crash (site w (page_url cfg page)) \<Longrightarrow>
   process_page w cfg page st = (Inl WebDriverException, after_open page (page_url cfg page) st)"
  by (simp add: process_page_def after_open_def Let_def)

lemma process_page_blocked:
  "\<not> crash (site w (page_url cfg page)) \<Longrightarrow>
   handle_protect_screen w cfg page (site w (page_url cfg page))
     (after_open page (page_url cfg page) st) = (False, st3) \<Longrightarrow>
   process_page w cfg page st = (Inr False, st3)"
  by (simp add: process_page_def after_open_def Let_def)

lemma process_page_no_container:
  "\<not> crash (site w (page_url cfg page)) \<Longrightarrow>
   handle_protect_screen w cfg page (site w (page_url cfg page))
     (after_open page (page_url cfg page) st) = (True, st3) \<Longrightarrow>
   \<not> list_ex (present (site w (page_url cfg page))) CONTAINER_CANDIDATES \<Longrightarrow>
   process_page w cfg page st = (Inr False, log_append (msg_page page txt_no_container) st3)"
  by (simp add: process_page_def after_open_def Let_def wait_cards_container_def)

lemma process_page_no_cards:
  "\<not> crash (site w (page_url cfg page)) \<Longrightarrow>
   handle_protect_screen w cfg page (site w (page_url cfg page))
     (after_open page (page_url cfg page) st) = (True, st3) \<Longrightarrow>
   list_ex (present (site w (page_url cfg page))) CONTAINER_CANDIDATES \<Longrightarrow>
   collect_cards (site w (page_url cfg page)) = [] \<Longrightarrow>
   process_page w cfg page st = (Inr False, log_append (msg_page page txt_no_cards) st3)"
  by (simp add: process_page_def after_open_def Let_def wait_cards_container_def)

lemma process_page_success:
  assumes "\<not> crash (site w (page_url cfg page))"
    and "handle_protect_screen w cfg page (site w (page_url cfg page))
           (after_open page (page_url cfg page) st) = (True, st3)"
    and "list_ex (present (site w (page_url cfg page))) CONTAINER_CANDIDATES"
    and "collect_cards (site w (page_url cfg page)) = cards" "cards \<noteq> []"
    and "map parse_card cards = map Inr ps"
  shows "process_page w cfg page st =
     (Inr True,
      save_partial page
        (log_append
           (msg_success page (length cards) (int (length (filter (\<lambda>p. name p \<noteq> []) ps)))
              (length (places st3 @ filter (\<lambda>p. name p \<noteq> []) ps)))
           (st3\<lparr>places := places st3 @ filter (\<lambda>p. name p \<noteq> []) ps\<rparr>)))"
  using assms(1-5)
  by (simp add: process_page_def after_open_def Let_def wait_cards_container_def
      append_cards_result [OF assms(6)])

lemma named_filter: "named (filter (\<lambda>p. name p \<noteq> []) ps)"
  by (simp add: named_def list_all_iff)

lemma step_effect_after_open:
  assumes "st' = (after_open page url st)\<lparr>logs := logs (after_open page url st) @ ls\<rparr>"
    and "list_all outcome_line ls"
  shows "step_effect page url st st'"
  unfolding step_effect_def
  by (rule exI [of _ ls], rule exI [of _ "[]"]) (simp add: assms after_open_def named_def)

lemma step_effect_log:
  "step_effect page url st st' \<Longrightarrow> outcome_line l \<Longrightarrow> step_effect page url st (log_append l st')"
  unfolding step_effect_def
  apply (elim exE conjE)
  subgoal for ls new
    by (rule exI [of _ "ls @ [l]"], rule exI [of _ new]) simp
  done

lemma step_effect_places:
  "step_effect page url st st' \<Longrightarrow> named new \<Longrightarrow>
   step_effect page url st (st'\<lparr>places := places st' @ new\<rparr>)"
  unfolding step_effect_def
  apply (elim exE conjE)
  subgoal for ls old
    by (rule exI [of _ ls], rule exI [of _ "old @ new"]) (simp add: named_def)
  done

lemma step_effect_save:
  "step_effect page url st st' \<Longrightarrow> step_effect page url st (save_partial k st')"
  by (simp add: step_effect_def)

lemma process_page_effect:
  "step_effect page (page_url cfg page) st (snd (process_page w cfg page st))"
proof -
  let ?url = "page_url cfg page"
  let ?view = "site w ?url"
  let ?st2 = "after_open page ?url st"
  obtain b st3 where h: "handle_protect_screen w cfg page ?view ?st2 = (b, st3)"
    by (cases "handle_protect_screen w cfg page ?view ?st2")
  obtain ls where ls: "st3 = ?st2\<lparr>logs := logs ?st2 @ ls\<rparr>" "list_all outcome_line ls"
    using handle_protect_screen_effect [of w cfg page ?view ?st2] h by auto
  have e3: "step_effect page ?url st st3"
    using ls by (rule step_effect_after_open)
  have e2: "step_effect page ?url st ?st2"
    by (rule step_effect_after_open [of _ _ _ _ "[]"]) simp_all
  obtain ps where ps: "map parse_card (collect_cards ?view) = map Inr ps"
    using parse_all by blast
  consider (crash) "crash ?view"
    | (blocked) "\<not> crash ?view" "\<not> b"
    | (no_container) "\<not> crash ?view" b "\<not> list_ex (present ?view) CONTAINER_CANDIDATES"
    | (no_cards) "\<not> crash ?view" b "list_ex (present ?view) CONTAINER_CANDIDATES"
        "collect_cards ?view = []"
    | (success) "\<not> crash ?view" b "list_ex (present ?view) CONTAINER_CANDIDATES"
        "collect_cards ?view \<noteq> []"
    by blast
  then show ?thesis
  proof cases
    case crash
    then show ?thesis using e2 by (simp add: process_page_crash)
  next
    case blocked
    then show ?thesis using e3 h by (simp add: process_page_blocked)
  next
    case no_container
    then show ?thesis
      using h by (simp add: process_page_no_container step_effect_log [OF e3])
  next
    case no_cards
    then show ?thesis
      using h by (simp add: process_page_no_cards step_effect_log [OF e3])
  next
    case success
    have "process_page w cfg page st =
     (Inr True,
      save_partial page
        (log_append
           (msg_success page (length (collect_cards ?view)) (int (length (filter (\<lambda>p. name p \<noteq> []) ps)))
              (length (places st3 @ filter (\<lambda>p. name p \<noteq> []) ps)))
           (st3\<lparr>places := places st3 @ filter (\<lambda>p. name p \<noteq> []) ps\<rparr>)))"
      using success h ps by (intro process_page_success) simp_all
    then show ?thesis
      by (simp only: snd_conv)
        (intro step_effect_save step_effect_log step_effect_places e3 named_filter
          outcome_line_msg_success)
  qed
qed

lemma run_effect_refl: "run_effect url_of [] st st"
  by (simp add: run_effect_def named_def)

lemma filter_outcome_lines: "list_all outcome_line ls \<Longrightarrow> filter opened_line ls = []"
  by (induction ls) (auto dest: outcome_not_opened)

lemma run_effect_step: "step_effect page (url_of page) st st' \<Longrightarrow> run_effect url_of [page] st st'"
  by (auto simp: step_effect_def run_effect_def filter_outcome_lines)

lemma named_append: "named (a @ b) \<longleftrightarrow> named a \<and> named b"
  by (simp add: named_def)

lemma run_effect_trans:
  "run_effect url_of a st st1 \<Longrightarrow> run_effect url_of b st1 st2 \<Longrightarrow> run_effect url_of (a @ b) st st2"
  unfolding run_effect_def
  apply (elim exE conjE)
  subgoal for n1 n2
    by (intro conjI exI [of _ "n1 @ n2"]) (simp_all add: named_append)
  done

lemma run_loop_effect:
  "\<exists>vp rest. pages = vp @ rest \<and> run_effect (page_url cfg) vp st (snd (run_loop w cfg pages st))"
proof (induction pages arbitrary: st)
  case Nil
  then show ?case by (simp add: run_effect_refl)
next
  case (Cons page pages)
  obtain r st1 where p: "process_page w cfg page st = (r, st1)"
    by (cases "process_page w cfg page st")
  have one: "run_effect (page_url cfg) [page] st st1"
    using process_page_effect [of page cfg st w] p by (simp add: run_effect_step)
  show ?case
  proof (cases "r = Inr True")
    case True
    from Cons.IH [of st1] obtain vp rest where
      vp: "pages = vp @ rest" "run_effect (page_url cfg) vp st1 (snd (run_loop w cfg pages st1))"
      by blast
    have "run_effect (page_url cfg) ([page] @ vp) st (snd (run_loop w cfg pages st1))"
      using one vp(2) by (rule run_effect_trans)
    moreover have "run_loop w cfg (page # pages) st = run_loop w cfg pages st1"
      using p True by simp
    moreover have "page # pages = ([page] @ vp) @ rest"
      using vp(1) by simp
    ultimately show ?thesis by metis
  next
    case False
    then have "snd (run_loop w cfg (page # pages) st) = st1"
      using p by (cases r) (auto split: bool.splits)
    moreover have "page # pages = [page] @ pages" by simp
    ultimately show ?thesis using one by metis
  qed
qed

lemma script_is_protect_screen_eq: "script_is_protect_screen w src = is_protect_screen w src"
  by (simp add: script_is_protect_screen_def is_protect_screen_def PROTECT_TOKENS_def)

lemma script_collect_cards_eq: "script_collect_cards view = collect_cards view"
  by (simp add: script_collect_cards_def collect_cards_def CARD_SELECTORS_def Let_def)

lemma script_save_partial_eq: "script_save_partial (format_02d page) st = save_partial page st"
  by (simp add: script_save_partial_def save_partial_def Let_def)

lemma script_wait_cards_container_eq:
  "script_wait_cards_container view =
     (if list_ex (present view) CONTAINER_CANDIDATES then Inr () else Inl TimeoutException)"
  by (simp add: script_wait_cards_container_def CONTAINER_CANDIDATES_def)

lemma script_parse_all: "\<exists>ps. map script_parse_card cards = map Inr ps"
proof (induction cards)
  case Nil
  then show ?case by simp
next
  case (Cons c cards)
  then obtain ps where "map script_parse_card cards = map Inr ps" by blast
  moreover obtain p where "script_parse_card c = Inr p" using script_parse_card_total by blast
  ultimately have "map script_parse_card (c # cards) = map Inr (p # ps)" by simp
  then show ?case by blast
qed

lemma script_append_loop_result:
  "map script_parse_card cards = map Inr ps \<Longrightarrow>
   script_append_loop cards st = (None, st\<lparr>places := places st @ filter (\<lambda>p. name p \<noteq> []) ps\<rparr>)"
proof (induction cards arbitrary: ps st)
  case Nil
  then show ?case by simp
next
  case (Cons c cards)
  then obtain p ps' where ps: "ps = p # ps'" "script_parse_card c = Inr p"
      "map script_parse_card cards = map Inr ps'"
    by (cases ps) auto
  show ?case
    using Cons.IH [OF ps(3)] ps by simp
qed

lemma script_protect_step_clear:
  "\<not> challenged_at w view 0 \<Longrightarrow> script_protect_step w page view st = st"
  by (simp add: script_protect_step_def challenged_at_def script_is_protect_screen_eq)

lemma script_protect_step_polled:
  "challenged_at w view 0 \<Longrightarrow> poll (challenged_at w view) 1 8 \<Longrightarrow>
   script_protect_step w page view st = log_append (msg_page page txt_protect_wait) st"
  by (simp add: script_protect_step_def challenged_at_def [abs_def] script_is_protect_screen_eq Let_def)

lemma script_protect_step_manual:
  "challenged_at w view 0 \<Longrightarrow> \<not> poll (challenged_at w view) 1 8 \<Longrightarrow>
   script_protect_step w page view st =
     log_append (msg_page page txt_manual) (log_append (msg_page page txt_protect_wait) st)"
  by (simp add: script_protect_step_def challenged_at_def [abs_def] script_is_protect_screen_eq
      Let_def HEADLESS_def)

lemma script_protect_step_effect:
  "\<exists>ls. script_protect_step w page view st = st\<lparr>logs := logs st @ ls\<rparr> \<and> list_all outcome_line ls"
proof -
  consider (clear) "\<not> challenged_at w view 0"
    | (polled) "challenged_at w view 0" "poll (challenged_at w view) 1 8"
    | (manual) "challenged_at w view 0" "\<not> poll (challenged_at w view) 1 8"
    by blast
  then show ?thesis
  proof cases
    case clear
    have "st = st\<lparr>logs := logs st @ []\<rparr> \<and> list_all outcome_line []" by simp
    then show ?thesis
      unfolding script_protect_step_clear [OF clear] by (rule exI)
  next
    case polled
    have "log_append (msg_page page txt_protect_wait) st =
        st\<lparr>logs := logs st @ [msg_page page txt_protect_wait]\<rparr> \<and>
        list_all outcome_line [msg_page page txt_protect_wait]"
      by (simp add: log_append_def)
    then show ?thesis
      unfolding script_protect_step_polled [OF polled] by (rule exI)
  next
    case manual
    have "log_append (msg_page page txt_manual) (log_append (msg_page page txt_protect_wait) st) =
        st\<lparr>logs := logs st @ [msg_page page txt_protect_wait, msg_page page txt_manual]\<rparr> \<and>
        list_all outcome_line [msg_page page txt_protect_wait, msg_page page txt_manual]"
      by (simp add: log_append_def)
    then show ?thesis
      unfolding script_protect_step_manual [OF manual] by (rule exI)
  qed
qed

lemma script_page_step_crash:
  "crash (site w (script_page_url page)) \<Longrightarrow>
   script_page_step w page st = (Inl WebDriverException, after_open page (script_page_url page) st)"
  by (simp add: script_page_step_def after_open_def Let_def)

lemma script_page_step_no_container:
  "\<not> crash (site w (script_page_url page)) \<Longrightarrow>
   \<not> list_ex (present (site w (script_page_url page))) CONTAINER_CANDIDATES \<Longrightarrow>
   script_page_step w page st =
     (Inr False, log_append (msg_page page txt_no_container)
        (script_protect_step w page (site w (script_page_url page))
           (after_open page (script_page_url page) st)))"
  by (simp add: script_page_step_def after_open_def Let_def script_wait_cards_container_eq)

lemma script_page_step_no_cards:
  "\<not> crash (site w (script_page_url page)) \<Longrightarrow>
   list_ex (present (site w (script_page_url page))) CONTAINER_CANDIDATES \<Longrightarrow>
   collect_cards (site w (script_page_url page)) = [] \<Longrightarrow>
   script_page_step w page st =
     (Inr False, log_append (msg_page page txt_no_cards)
        (script_protect_step w page (site w (script_page_url page))
           (after_open page (script_page_url page) st)))"
  by (simp add: script_page_step_def after_open_def Let_def script_wait_cards_container_eq
      script_collect_cards_eq)

lemma script_page_step_success:
  assumes "\<not> crash (site w (script_page_url page))"
    and "list_ex (present (site w (script_page_url page))) CONTAINER_CANDIDATES"
    and "collect_cards (site w (script_page_url page)) = cards" "cards \<noteq> []"
    and "map script_parse_card cards = map Inr ps"
    and "st3 = script_protect_step w page (site w (script_page_url page))
           (after_open page (script_page_url page) st)"
  shows "script_page_step w page st =
     (Inr True,
      save_partial page
        (log_append
           (msg_success page (length cards) (int (length (filter (\<lambda>p. name p \<noteq> []) ps)))
              (length (places st3 @ filter (\<lambda>p. name p \<noteq> []) ps)))
           (st3\<lparr>places := places st3 @ filter (\<lambda>p. name p \<noteq> []) ps\<rparr>)))"
  using assms(1-4,6)
  by (simp add: script_page_step_def after_open_def Let_def script_wait_cards_container_eq
      script_collect_cards_eq script_append_loop_result [OF assms(5)] script_save_partial_eq)

lemma script_page_step_effect:
  "step_effect page (script_page_url page) st (snd (script_page_step w page st))"
proof -
  let ?url = "script_page_url page"
  let ?view = "site w ?url"
  let ?st2 = "after_open page ?url st"
  define st3 where "st3 = script_protect_step w page ?view ?st2"
  obtain ls where ls: "st3 = ?st2\<lparr>logs := logs ?st2 @ ls\<rparr>" "list_all outcome_line ls"
    unfolding st3_def using script_protect_step_effect [of w page ?view ?st2] by auto
  have e3: "step_effect page ?url st st3"
    using ls by (rule step_effect_after_open)
  have e2: "step_effect page ?url st ?st2"
    by (rule step_effect_after_open [of _ _ _ _ "[]"]) simp_all
  obtain ps where ps: "map script_parse_card (collect_cards ?view) = map Inr ps"
    using script_parse_all by blast
  consider (crash) "crash ?view"
    | (no_container) "\<not> crash ?view" "\<not> list_ex (present ?view) CONTAINER_CANDIDATES"
    | (no_cards) "\<not> crash ?view" "list_ex (present ?view) CONTAINER_CANDIDATES"
        "collect_cards ?view = []"
    | (success) "\<not> crash ?view" "list_ex (present ?view) CONTAINER_CANDIDATES"
        "collect_cards ?view \<noteq> []"
    by blast
  then show ?thesis
  proof cases
    case crash
    then show ?thesis using e2 by (simp add: script_page_step_crash)
  next
    case no_container
    then show ?thesis
      using step_effect_log [OF e3] by (simp add: script_page_step_no_container st3_def)
  next
    case no_cards
    then show ?thesis
      using step_effect_log [OF e3] by (simp add: script_page_step_no_cards st3_def)
  next
    case success
    have "script_page_step w page st =
     (Inr True,
      save_partial page
        (log_append
           (msg_success page (length (collect_cards ?view)) (int (length (filter (\<lambda>p. name p \<noteq> []) ps)))
              (length (places st3 @ filter (\<lambda>p. name p \<noteq> []) ps)))
           (st3\<lparr>places := places st3 @ filter (\<lambda>p. name p \<noteq> []) ps\<rparr>)))"
      using success ps st3_def by (intro script_page_step_success) simp_all
    then show ?thesis
      by (simp only: snd_conv)
        (intro step_effect_save step_effect_log step_effect_places e3 named_filter
          outcome_line_msg_success)
  qed
qed

lemma script_loop_effect:
  "\<exists>vp rest. pages = vp @ rest \<and> run_effect script_page_url vp st (snd (script_loop w pages st))"
proof (induction pages arbitrary: st)
  case Nil
  then show ?case by (simp add: run_effect_refl)
next
  case (Cons page pages)
  obtain r st1 where p: "script_page_step w page st = (r, st1)"
    by (cases "script_page_step w page st")
  have one: "run_effect script_page_url [page] st st1"
    using script_page_step_effect [of page st w] p by (simp add: run_effect_step)
  show ?case
  proof (cases "r = Inr True")
    case True
    from Cons.IH [of st1] obtain vp rest where
      vp: "pages = vp @ rest" "run_effect script_page_url vp st1 (snd (script_loop w pages st1))"
      by blast
    have "run_effect script_page_url ([page] @ vp) st (snd (script_loop w pages st1))"
      using one vp(2) by (rule run_effect_trans)
    moreover have "script_loop w (page # pages) st = script_loop w pages st1"
      using p True by simp
    moreover have "page # pages = ([page] @ vp) @ rest"
      using vp(1) by simp
    ultimately show ?thesis by metis
  next
    case False
    then have "snd (script_loop w (page # pages) st) = st1"
      using p by (cases r) (auto split: bool.splits)
    moreover have "page # pages = [page] @ pages" by simp
    ultimately show ?thesis using one by metis
  qed
qed

section \<open>The accumulated records have names\<close>

lemma close_fields [simp]:
  "places (close w st) = places st"
  "logs (close w st) = logs st"
  "visited (close w st) = visited st"
  "files (close w st) = files st"
  "driver_open (close w st) = False"
  "quit_calls (close w st) = (if driver_open st then Suc (quit_calls st) else quit_calls st)"
  by (simp_all add: close_def driver_quit_def)

lemma ensure_driver_fields [simp]:
  "places (ensure_driver st) = places st"
  "logs (ensure_driver st) = logs st"
  "visited (ensure_driver st) = visited st"
  "files (ensure_driver st) = files st"
  "driver_open (ensure_driver st) = True"
  "quit_calls (ensure_driver st) = quit_calls st"
  by (simp_all add: ensure_driver_def)

lemma run_state:
  "snd (run w cfg st) = close w (snd (run_loop w cfg [1 .. total_pages cfg] (ensure_driver st)))"
  by (simp add: run_def Let_def split: prod.splits option.splits)

lemma run_result:
  "fst (run w cfg st) =
     (case fst (run_loop w cfg [1 .. total_pages cfg] (ensure_driver st)) of
        Some err \<Rightarrow> Inl err
      | None \<Rightarrow> Inr (places (snd (run w cfg st)), logs (snd (run w cfg st))))"
  by (simp add: run_def Let_def split: prod.splits option.splits)

lemma main_fields:
  "places (snd (main w cfg fs)) = places (snd (run w cfg (new_scraper fs)))"
  "logs (snd (main w cfg fs)) = logs (snd (run w cfg (new_scraper fs)))"
  "visited (snd (main w cfg fs)) = visited (snd (run w cfg (new_scraper fs)))"
  "quit_calls (snd (main w cfg fs)) = quit_calls (snd (run w cfg (new_scraper fs)))"
  "driver_open (snd (main w cfg fs)) = driver_open (snd (run w cfg (new_scraper fs)))"
  by (simp_all add: main_def split: prod.splits sum.splits)

lemma scrape_all_pages_state:
  "snd (scrape_all_pages w fs) =
     (snd (script_loop w [1 .. TOTAL_PAGES]
        \<lparr> places = [], logs = [], driver_open = True, visited = [], quit_calls = 0, files = fs \<rparr>))
     \<lparr>quit_calls := Suc (quit_calls (snd (script_loop w [1 .. TOTAL_PAGES]
        \<lparr> places = [], logs = [], driver_open = True, visited = [], quit_calls = 0, files = fs \<rparr>))),
      driver_open := False\<rparr>"
  by (simp add: scrape_all_pages_def driver_quit_def Let_def split: prod.splits option.splits)

lemma run_effect_named:
  "run_effect url_of vp st st' \<Longrightarrow> named (places st) \<Longrightarrow> named (places st')"
  by (auto simp: run_effect_def named_append)

lemma step_effect_named:
  "step_effect page url st st' \<Longrightarrow> named (places st) \<Longrightarrow> named (places st')"
  by (auto simp: step_effect_def named_append)

lemma run_loop_named: "named (places st) \<Longrightarrow> named (places (snd (run_loop w cfg pages st)))"
  using run_loop_effect [of pages cfg st w] by (auto dest: run_effect_named)

lemma script_loop_named: "named (places st) \<Longrightarrow> named (places (snd (script_loop w pages st)))"
  using script_loop_effect [of pages st w] by (auto dest: run_effect_named)

text \<open>
  C3. Whenever the accumulated records all have a non-empty name, they still do after
  \<open>_append_cards\<close>, after a page step, after any number of pages of the run loop and at the
  end of \<open>run\<close>; a run of \<open>main\<close> or of the script, which starts with no records, ends
  with named records only. \<open>_append_cards\<close> appends exactly the parsed cards with a non-empty
  name, in order, and returns their number: a card with an empty name is not appended and is
  not counted. The name of a card is empty exactly when each title selector finds no element
  or finds first an element whose text is white space only.
\<close>

theorem nonempty_names_invariant:
  assumes "named (places st)"
  shows "(\<exists>ps. map parse_card cards = map Inr ps \<and>
            append_cards cards st =
              (Inr (int (length (filter (\<lambda>p. name p \<noteq> []) ps))),
               st\<lparr>places := places st @ filter (\<lambda>p. name p \<noteq> []) ps\<rparr>)) \<and>
         (\<exists>p. parse_card crd = Inr p \<and> name p = extract_name crd) \<and>
         (extract_name crd = [] \<longleftrightarrow> list_all (blank_title crd) TITLE_SELECTORS) \<and>
         named (places (snd (append_cards cards st))) \<and>
         named (places (snd (process_page w cfg page st))) \<and>
         named (places (snd (run_loop w cfg pages st))) \<and>
         named (places (snd (run w cfg st))) \<and>
         named (places (snd (main w cfg fs))) \<and>
         named (places (snd (script_page_step w page st))) \<and>
         named (places (snd (script_loop w pages st))) \<and>
         named (places (snd (scrape_all_pages w fs)))"
proof (intro conjI)
  obtain ps where ps: "map parse_card cards = map Inr ps"
    using parse_all by blast
  have ac: "append_cards cards st =
      (Inr (int (length (filter (\<lambda>p. name p \<noteq> []) ps))),
       st\<lparr>places := places st @ filter (\<lambda>p. name p \<noteq> []) ps\<rparr>)"
    using ps by (rule append_cards_result)
  show "\<exists>ps. map parse_card cards = map Inr ps \<and>
      append_cards cards st =
        (Inr (int (length (filter (\<lambda>p. name p \<noteq> []) ps))),
         st\<lparr>places := places st @ filter (\<lambda>p. name p \<noteq> []) ps\<rparr>)"
    using ps ac by blast
  show "named (places (snd (append_cards cards st)))"
    using assms by (simp add: ac named_append named_filter)
  show "\<exists>p. parse_card crd = Inr p \<and> name p = extract_name crd"
    by (rule parse_card_total)
  show "extract_name crd = [] \<longleftrightarrow> list_all (blank_title crd) TITLE_SELECTORS"
    by (simp only: extract_name_def extract_name_from_empty)
  show "named (places (snd (process_page w cfg page st)))"
    using process_page_effect assms by (rule step_effect_named)
  show "named (places (snd (run_loop w cfg pages st)))"
    using assms by (rule run_loop_named)
  show "named (places (snd (run w cfg st)))"
    using assms by (simp add: run_state run_loop_named)
  have "named (places (ensure_driver (new_scraper fs)))"
    by (simp add: new_scraper_def named_def)
  then have "named (places (snd (run_loop w cfg [1 .. total_pages cfg] (ensure_driver (new_scraper fs)))))"
    by (rule run_loop_named)
  then show "named (places (snd (main w cfg fs)))"
    by (simp add: main_fields run_state)
  show "named (places (snd (script_page_step w page st)))"
    using script_page_step_effect assms by (rule step_effect_named)
  show "named (places (snd (script_loop w pages st)))"
    using assms by (rule script_loop_named)
  have "named (places \<lparr> places = [], logs = [], driver_open = True, visited = [], quit_calls = 0,
      files = fs \<rparr>)"
    by (simp add: named_def)
  then have "named (places (snd (script_loop w [1 .. TOTAL_PAGES]
      \<lparr> places = [], logs = [], driver_open = True, visited = [], quit_calls = 0, files = fs \<rparr>)))"
    by (rule script_loop_named)
  then show "named (places (snd (scrape_all_pages w fs)))"
    by (simp add: scrape_all_pages_state)
qed

lemma example_card_rating: "extract_rating (example_card t) = Inr (Some (Finite (9 / 2)))"
  by (simp add: example_card_def extract_rating_def RATING_SELECTOR_def find_element_def
      find_elements_def selects_def py_strip_def is_space_def ascii_def rating_of_text_def
      rating_rx_def is_decimal_low replace_char_def py_float_def digits_value_def
      decimal_digit_low double_45)

lemma example_card_categories: "extract_categories (example_card t) = [ascii ''Cafe'']"
  by (simp add: example_card_def extract_categories_def FEATURES_SELECTOR_def find_elements_def
      selects_def categories_of_texts_def strip_chars_def lstrip_chars_def rstrip_chars_def
      SEPARATORS_def ascii_def Let_def)

lemma example_card_name: "extract_name (example_card t) = py_strip t"
  by (simp add: example_card_def extract_name_def TITLE_SELECTORS_def find_element_def
      find_elements_def selects_def Let_def)

lemma example_card_place:
  "parse_card (example_card t) =
     Inr \<lparr> name = py_strip t, rating = Some (Finite (9 / 2)), categories = [ascii ''Cafe''] \<rparr>"
  by (simp add: parse_card_def example_card_rating example_card_categories example_card_name)

lemma py_strip_examples:
  "py_strip (ascii ''Alpha'') = ascii ''Alpha''"
  "py_strip (ascii ''Beta'') = ascii ''Beta''"
  "py_strip (ascii ''  '') = []"
  by (simp_all add: py_strip_def is_space_def ascii_def)

theorem nonempty_names_invariant_witness:
  "named (places (new_scraper Map.empty)) \<and>
   extract_name (example_card (ascii ''  '')) = [] \<and>
   append_cards [example_card (ascii ''  ''), example_card (ascii ''Alpha'')] (new_scraper Map.empty) =
     (Inr 1,
      (new_scraper Map.empty)
        \<lparr>places := [\<lparr> name = ascii ''Alpha'', rating = Some (Finite (9 / 2)),
                       categories = [ascii ''Cafe''] \<rparr>]\<rparr>) \<and>
   named (places (snd (main example_world example_config Map.empty)))"
proof -
  have n: "named (places (new_scraper Map.empty))"
    by (simp add: new_scraper_def named_def)
  have a: "append_cards [example_card (ascii ''  ''), example_card (ascii ''Alpha'')] (new_scraper Map.empty) =
     (Inr 1,
      (new_scraper Map.empty)
        \<lparr>places := [\<lparr> name = ascii ''Alpha'', rating = Some (Finite (9 / 2)),
                       categories = [ascii ''Cafe''] \<rparr>]\<rparr>)"
    by (simp add: append_cards_def example_card_place py_strip_examples new_scraper_def)
      (simp add: ascii_def)
  from nonempty_names_invariant [OF n, of _ _ example_world example_config _ _ Map.empty]
  have "named (places (snd (main example_world example_config Map.empty)))"
    by blast
  then show ?thesis
    using n a by (simp add: example_card_name py_strip_examples)
qed

section \<open>A run of two pages\<close>

lemma upto_1_3: "[1 .. 3] = [1, 2, 3::int]"
  by (simp add: upto_rec1)

lemma scenario_loop:
  assumes v1: "\<not> crash (site w (page_url cfg 1))" "\<not> challenged_at w (site w (page_url cfg 1)) 0"
      "list_ex (present (site w (page_url cfg 1))) CONTAINER_CANDIDATES"
      "collect_cards (site w (page_url cfg 1)) = [c1, c2]"
    and p: "parse_card c1 = Inr p1" "parse_card c2 = Inr p2" "name p1 \<noteq> []" "name p2 \<noteq> []"
    and v2: "\<not> crash (site w (page_url cfg 2))" "\<not> challenged_at w (site w (page_url cfg 2)) 0"
      "list_ex (present (site w (page_url cfg 2))) CONTAINER_CANDIDATES"
      "collect_cards (site w (page_url cfg 2)) = []"
  shows "run_loop w cfg (1 # 2 # pages) st =
     (None,
      log_append (msg_page 2 txt_no_cards)
        (after_open 2 (page_url cfg 2)
           (save_partial 1
              (log_append (msg_success 1 2 2 (length (places st) + 2))
                 ((after_open 1 (page_url cfg 1) st)\<lparr>places := places st @ [p1, p2]\<rparr>)))))"
proof -
  let ?st1 = "save_partial 1
              (log_append (msg_success 1 2 2 (length (places st) + 2))
                 ((after_open 1 (page_url cfg 1) st)\<lparr>places := places st @ [p1, p2]\<rparr>))"
  have h1: "handle_protect_screen w cfg 1 (site w (page_url cfg 1)) (after_open 1 (page_url cfg 1) st)
      = (True, after_open 1 (page_url cfg 1) st)"
    using v1(2) by (rule handle_protect_screen_clear)
  have m: "map parse_card [c1, c2] = map Inr [p1, p2]"
    using p by simp
  have "process_page w cfg 1 st = (Inr True, ?st1)"
    using process_page_success [OF v1(1) h1 v1(3) v1(4) _ m] p(3,4)
    by (simp add: after_open_def numeral_2_eq_2)
  moreover have h2: "handle_protect_screen w cfg 2 (site w (page_url cfg 2)) (after_open 2 (page_url cfg 2) ?st1)
      = (True, after_open 2 (page_url cfg 2) ?st1)"
    using v2(2) by (rule handle_protect_screen_clear)
  have "process_page w cfg 2 ?st1 =
      (Inr False, log_append (msg_page 2 txt_no_cards) (after_open 2 (page_url cfg 2) ?st1))"
    using v2(1) h2 v2(3) v2(4) by (rule process_page_no_cards)
  ultimately show ?thesis by simp
qed

lemma scenario_main:
  assumes tp: "total_pages cfg = 3"
    and v1: "\<not> crash (site w (page_url cfg 1))" "\<not> challenged_at w (site w (page_url cfg 1)) 0"
      "list_ex (present (site w (page_url cfg 1))) CONTAINER_CANDIDATES"
      "collect_cards (site w (page_url cfg 1)) = [c1, c2]"
    and n: "extract_name c1 \<noteq> []" "extract_name c2 \<noteq> []"
    and v2: "\<not> crash (site w (page_url cfg 2))" "\<not> challenged_at w (site w (page_url cfg 2)) 0"
      "list_ex (present (site w (page_url cfg 2))) CONTAINER_CANDIDATES"
      "collect_cards (site w (page_url cfg 2)) = []"
  shows "\<exists>st. main w cfg fs = (None, st) \<and>
      map name (places st) = [extract_name c1, extract_name c2] \<and>
      visited st = [page_url cfg 1, page_url cfg 2] \<and>
      logs st = [msg_opened 1 (page_url cfg 1), msg_success 1 2 2 2,
                 msg_opened 2 (page_url cfg 2), msg_page 2 txt_no_cards] \<and>
      files st (log_filename cfg) = Some (TextFile (join [10] (logs st))) \<and>
      quit_calls st = 1 \<and> \<not> driver_open st"
proof -
  obtain p1 where p1: "parse_card c1 = Inr p1" "name p1 = extract_name c1"
    using parse_card_total by blast
  obtain p2 where p2: "parse_card c2 = Inr p2" "name p2 = extract_name c2"
    using parse_card_total by blast
  let ?ini = "ensure_driver (new_scraper fs)"
  let ?st = "log_append (msg_page 2 txt_no_cards)
        (after_open 2 (page_url cfg 2)
           (save_partial 1
              (log_append (msg_success 1 2 2 (length (places ?ini) + 2))
                 ((after_open 1 (page_url cfg 1) ?ini)\<lparr>places := places ?ini @ [p1, p2]\<rparr>))))"
  have loop: "run_loop w cfg [1 .. total_pages cfg] ?ini = (None, ?st)"
    unfolding tp upto_1_3
    using v1 p1(1) p2(1) _ _ v2 by (rule scenario_loop) (simp_all add: p1 p2 n)
  have r: "run w cfg (new_scraper fs) = (Inr (places (close w ?st), logs (close w ?st)), close w ?st)"
    by (simp add: run_def loop Let_def)
  define fin where "fin = (close w ?st)\<lparr>files := (files (close w ?st))
                  (csv_filename cfg \<mapsto> CsvFile (df_from_places (places (close w ?st))),
                   log_filename cfg \<mapsto> TextFile (join [10] (logs (close w ?st))))\<rparr>"
  have m: "main w cfg fs = (None, fin)"
    by (simp add: main_def r fin_def)
  have f1: "map name (places fin) = [extract_name c1, extract_name c2]"
    by (simp add: fin_def after_open_def new_scraper_def p1 p2)
  have f2: "visited fin = [page_url cfg 1, page_url cfg 2]"
    by (simp add: fin_def after_open_def new_scraper_def)
  have f3: "logs fin = [msg_opened 1 (page_url cfg 1), msg_success 1 2 2 2,
                 msg_opened 2 (page_url cfg 2), msg_page 2 txt_no_cards]"
    by (simp add: fin_def after_open_def new_scraper_def numeral_2_eq_2)
  have f4: "files fin (log_filename cfg) = Some (TextFile (join [10] (logs fin)))"
    by (simp add: fin_def)
  have f5: "quit_calls fin = 1" and f6: "\<not> driver_open fin"
    by (simp_all add: fin_def after_open_def new_scraper_def)
  from m f1 f2 f3 f4 f5 f6 show ?thesis
    by (intro exI [of _ fin] conjI)
qed

lemma plain_view_clear: "\<not> challenged_at example_world (plain_view doc) i"
  by (simp add: challenged_at_def is_protect_screen_def example_world_def plain_view_def
      PROTECT_TOKENS_def ascii_def)

lemma plain_view_present: "list_ex (present (plain_view doc)) CONTAINER_CANDIDATES"
  by (simp add: plain_view_def CONTAINER_CANDIDATES_def)

lemma example_urls:
  "page_url example_config 1 = ascii ''https://zoon.ru/tomsk/restaurants/''"
  "page_url example_config 2 = ascii ''https://zoon.ru/tomsk/restaurants/page-2/''"
proof -
  show "page_url example_config 1 = ascii ''https://zoon.ru/tomsk/restaurants/''"
    by (simp add: page_url_def example_config_def default_config_def)
  have s: "str_int 2 = ascii ''2''"
    by (simp add: str_int_def str_nat_def digit_list.simps ascii_def)
  have r: "rstrip_chars (ascii ''/'') (city_url example_config) = ascii ''https://zoon.ru/tomsk/restaurants''"
    by (simp add: rstrip_chars_def example_config_def default_config_def ascii_def)
  show "page_url example_config 2 = ascii ''https://zoon.ru/tomsk/restaurants/page-2/''"
    by (simp add: page_url_def r s) (simp add: ascii_def)
qed

lemma example_site:
  "site example_world (page_url example_config 1) =
     plain_view [example_card (ascii ''Alpha''), example_card (ascii ''Beta'')]"
  "site example_world (page_url example_config 2) = plain_view []"
  by (simp_all add: example_urls example_world_def) (simp add: ascii_def)

lemma example_cards:
  "collect_cards (plain_view [example_card (ascii ''Alpha''), example_card (ascii ''Beta'')]) =
     [example_card (ascii ''Alpha''), example_card (ascii ''Beta'')]"
  "collect_cards (plain_view []) = []"
  by (simp_all add: collect_cards_def CARD_SELECTORS_def find_elements_def selects_def
      plain_view_def example_card_def)

lemma example_names:
  "extract_name (example_card (ascii ''Alpha'')) = ascii ''Alpha''"
  "extract_name (example_card (ascii ''Beta'')) = ascii ''Beta''"
  by (simp_all add: example_card_name py_strip_examples)

lemma example_main:
  "\<exists>st. main example_world example_config fs = (None, st) \<and>
      map name (places st) = [ascii ''Alpha'', ascii ''Beta''] \<and>
      visited st = [page_url example_config 1, page_url example_config 2] \<and>
      logs st = [msg_opened 1 (page_url example_config 1), msg_success 1 2 2 2,
                 msg_opened 2 (page_url example_config 2), msg_page 2 txt_no_cards] \<and>
      files st (log_filename example_config) = Some (TextFile (join [10] (logs st))) \<and>
      quit_calls st = 1 \<and> \<not> driver_open st"
proof -
  have tp: "total_pages example_config = 3"
    by (simp add: example_config_def)
  have nc: "\<not> crash (site example_world (page_url example_config 1))"
       "\<not> crash (site example_world (page_url example_config 2))"
    by (simp_all add: example_site plain_view_def)
  have ne: "extract_name (example_card (ascii ''Alpha'')) \<noteq> []"
      "extract_name (example_card (ascii ''Beta'')) \<noteq> []"
    by (simp_all add: example_names) (simp_all add: ascii_def)
  have "\<exists>st. main example_world example_config fs = (None, st) \<and>
      map name (places st) =
        [extract_name (example_card (ascii ''Alpha'')), extract_name (example_card (ascii ''Beta''))] \<and>
      visited st = [page_url example_config 1, page_url example_config 2] \<and>
      logs st = [msg_opened 1 (page_url example_config 1), msg_success 1 2 2 2,
                 msg_opened 2 (page_url example_config 2), msg_page 2 txt_no_cards] \<and>
      files st (log_filename example_config) = Some (TextFile (join [10] (logs st))) \<and>
      quit_calls st = 1 \<and> \<not> driver_open st"
    using tp nc(1) _ _ _ ne nc(2)
    by (rule scenario_main)
      (simp_all add: example_site plain_view_clear plain_view_present example_cards)
  then show ?thesis
    by (simp only: example_names)
qed

text \<open>
  C1, as the code has it. In a run configured with three pages, where page 1 shows no
  challenge, has its container and yields two cards with non-empty names, and page 2 shows no
  challenge, has its container and yields no card, the run stops after page 2 without
  visiting page 3, the records accumulated are the two of page 1, and the log, in memory and
  as persisted at the end, has exactly four entries: for each of the two pages visited the
  opened-page line followed by the line of its outcome (the success line of page 1, the
  stop line of page 2).
\<close>

theorem two_page_scenario:
  assumes "total_pages cfg = 3"
    and "\<not> crash (site w (page_url cfg 1))"
    and "\<not> challenged_at w (site w (page_url cfg 1)) 0"
    and "list_ex (present (site w (page_url cfg 1))) CONTAINER_CANDIDATES"
    and "collect_cards (site w (page_url cfg 1)) = [c1, c2]"
    and "extract_name c1 \<noteq> []" and "extract_name c2 \<noteq> []"
    and "\<not> crash (site w (page_url cfg 2))"
    and "\<not> challenged_at w (site w (page_url cfg 2)) 0"
    and "list_ex (present (site w (page_url cfg 2))) CONTAINER_CANDIDATES"
    and "collect_cards (site w (page_url cfg 2)) = []"
  shows "\<exists>st. main w cfg fs = (None, st) \<and>
      length (places st) = 2 \<and>
      map name (places st) = [extract_name c1, extract_name c2] \<and>
      visited st = [page_url cfg 1, page_url cfg 2] \<and>
      logs st = [msg_opened 1 (page_url cfg 1), msg_success 1 2 2 2,
                 msg_opened 2 (page_url cfg 2), msg_page 2 txt_no_cards] \<and>
      files st (log_filename cfg) =
        Some (TextFile (join [10] [msg_opened 1 (page_url cfg 1), msg_success 1 2 2 2,
                 msg_opened 2 (page_url cfg 2), msg_page 2 txt_no_cards]))"
proof -
  obtain st where st: "main w cfg fs = (None, st)"
      "map name (places st) = [extract_name c1, extract_name c2]"
      "visited st = [page_url cfg 1, page_url cfg 2]"
      "logs st = [msg_opened 1 (page_url cfg 1), msg_success 1 2 2 2,
                 msg_opened 2 (page_url cfg 2), msg_page 2 txt_no_cards]"
      "files st (log_filename cfg) = Some (TextFile (join [10] (logs st)))"
    using scenario_main [OF assms, of fs] by (elim exE conjE) (rule that, assumption+)
  have "length (map name (places st)) = 2"
    by (simp add: st(2))
  then have "length (places st) = 2" by simp
  moreover have "files st (log_filename cfg) =
        Some (TextFile (join [10] [msg_opened 1 (page_url cfg 1), msg_success 1 2 2 2,
                 msg_opened 2 (page_url cfg 2), msg_page 2 txt_no_cards]))"
    using st(5) by (simp only: st(4))
  ultimately show ?thesis
    using st(1-4) by (intro exI [of _ st] conjI)
qed

theorem two_page_scenario_witness:
  "total_pages example_config = 3 \<and>
   collect_cards (site example_world (page_url example_config 1)) =
     [example_card (ascii ''Alpha''), example_card (ascii ''Beta'')] \<and>
   collect_cards (site example_world (page_url example_config 2)) = [] \<and>
   (\<exists>st. main example_world example_config Map.empty = (None, st) \<and>
      length (places st) = 2 \<and>
      visited st = [page_url example_config 1, page_url example_config 2] \<and>
      logs st = [msg_opened 1 (page_url example_config 1), msg_success 1 2 2 2,
                 msg_opened 2 (page_url example_config 2), msg_page 2 txt_no_cards])"
proof -
  have tp: "total_pages example_config = 3"
    by (simp add: example_config_def)
  have nc: "\<not> crash (site example_world (page_url example_config 1))"
       "\<not> crash (site example_world (page_url example_config 2))"
    by (simp_all add: example_site plain_view_def)
  have ch: "\<not> challenged_at example_world (site example_world (page_url example_config 1)) 0"
      "\<not> challenged_at example_world (site example_world (page_url example_config 2)) 0"
    by (simp_all add: example_site plain_view_clear)
  have pr: "list_ex (present (site example_world (page_url example_config 1))) CONTAINER_CANDIDATES"
      "list_ex (present (site example_world (page_url example_config 2))) CONTAINER_CANDIDATES"
    by (simp_all add: example_site plain_view_present)
  have cc: "collect_cards (site example_world (page_url example_config 1)) =
     [example_card (ascii ''Alpha''), example_card (ascii ''Beta'')]"
     "collect_cards (site example_world (page_url example_config 2)) = []"
    by (simp_all add: example_site example_cards)
  have ne: "extract_name (example_card (ascii ''Alpha'')) \<noteq> []"
      "extract_name (example_card (ascii ''Beta'')) \<noteq> []"
    by (simp_all add: example_names) (simp_all add: ascii_def)
  from two_page_scenario [OF tp nc(1) ch(1) pr(1) cc(1) ne nc(2) ch(2) pr(2) cc(2), of Map.empty]
  obtain st where "main example_world example_config Map.empty = (None, st)"
      "length (places st) = 2"
      "visited st = [page_url example_config 1, page_url example_config 2]"
      "logs st = [msg_opened 1 (page_url example_config 1), msg_success 1 2 2 2,
                 msg_opened 2 (page_url example_config 2), msg_page 2 txt_no_cards]"
    by (elim exE conjE) (rule that, assumption+)
  then have "\<exists>st. main example_world example_config Map.empty = (None, st) \<and>
      length (places st) = 2 \<and>
      visited st = [page_url example_config 1, page_url example_config 2] \<and>
      logs st = [msg_opened 1 (page_url example_config 1), msg_success 1 2 2 2,
                 msg_opened 2 (page_url example_config 2), msg_page 2 txt_no_cards]"
    by (intro exI [of _ st] conjI)
  with tp cc show ?thesis by (intro conjI)
qed

theorem two_log_entries_counterexample:
  "total_pages example_config = 3 \<and>
   length (collect_cards (site example_world (page_url example_config 1))) = 2 \<and>
   list_all (\<lambda>c. extract_name c \<noteq> [])
     (collect_cards (site example_world (page_url example_config 1))) \<and>
   collect_cards (site example_world (page_url example_config 2)) = [] \<and>
   length (places (snd (main example_world example_config Map.empty))) = 2 \<and>
   visited (snd (main example_world example_config Map.empty)) =
     [page_url example_config 1, page_url example_config 2] \<and>
   length (logs (snd (main example_world example_config Map.empty))) = 4 \<and>
   length (logs (snd (main example_world example_config Map.empty))) \<noteq> 2 \<and>
   files (snd (main example_world example_config Map.empty)) (log_filename example_config) =
     Some (TextFile (join [10]
       [msg_opened 1 (page_url example_config 1), msg_success 1 2 2 2,
        msg_opened 2 (page_url example_config 2), msg_page 2 txt_no_cards]))"
proof -
  obtain st where st: "main example_world example_config Map.empty = (None, st)"
      "map name (places st) = [ascii ''Alpha'', ascii ''Beta'']"
      "visited st = [page_url example_config 1, page_url example_config 2]"
      "logs st = [msg_opened 1 (page_url example_config 1), msg_success 1 2 2 2,
                 msg_opened 2 (page_url example_config 2), msg_page 2 txt_no_cards]"
      "files st (log_filename example_config) = Some (TextFile (join [10] (logs st)))"
    using example_main [of Map.empty] by (elim exE conjE) (rule that, assumption+)
  have "length (map name (places st)) = 2"
    by (simp add: st(2))
  then have l: "length (places st) = 2" by simp
  have ne: "extract_name (example_card (ascii ''Alpha'')) \<noteq> []"
      "extract_name (example_card (ascii ''Beta'')) \<noteq> []"
    by (simp_all add: example_names) (simp_all add: ascii_def)
  have f: "files st (log_filename example_config) =
     Some (TextFile (join [10]
       [msg_opened 1 (page_url example_config 1), msg_success 1 2 2 2,
        msg_opened 2 (page_url example_config 2), msg_page 2 txt_no_cards]))"
    using st(5) by (simp only: st(4))
  have sm: "snd (main example_world example_config Map.empty) = st"
    by (simp add: st(1))
  have c1: "total_pages example_config = 3"
    by (simp add: example_config_def)
  have c2: "length (collect_cards (site example_world (page_url example_config 1))) = 2"
    by (simp add: example_site example_cards)
  have c3: "list_all (\<lambda>c. extract_name c \<noteq> [])
     (collect_cards (site example_world (page_url example_config 1)))"
    using ne by (simp add: example_site example_cards)
  have c4: "collect_cards (site example_world (page_url example_config 2)) = []"
    by (simp add: example_site example_cards)
  have c5: "length (logs st) = 4" "length (logs st) \<noteq> 2"
    by (simp_all add: st(4))
  show ?thesis
    unfolding sm using c1 c2 c3 c4 l st(3) c5 f by (intro conjI)
qed

section \<open>The opened-page line\<close>

lemma step_effect_logs:
  "step_effect page url st st' \<Longrightarrow>
   \<exists>ls. logs st' = logs st @ msg_opened page url # ls \<and> list_all outcome_line ls \<and>
        filter opened_line ls = []"
  unfolding step_effect_def
  by (elim exE conjE) (auto simp: filter_outcome_lines)

lemma step_effect_visited: "step_effect page url st st' \<Longrightarrow> visited st' = visited st @ [url]"
  by (auto simp: step_effect_def)

lemma main_opened_lines:
  "\<exists>vp rest. [1 .. total_pages cfg] = vp @ rest \<and>
      visited (snd (main w cfg fs)) = map (page_url cfg) vp \<and>
      filter opened_line (logs (snd (main w cfg fs))) = map (\<lambda>k. msg_opened k (page_url cfg k)) vp"
proof -
  let ?ini = "ensure_driver (new_scraper fs)"
  obtain vp rest where vp: "[1 .. total_pages cfg] = vp @ rest"
      "run_effect (page_url cfg) vp ?ini (snd (run_loop w cfg [1 .. total_pages cfg] ?ini))"
    using run_loop_effect [of "[1 .. total_pages cfg]" cfg ?ini w] by blast
  have "visited (snd (main w cfg fs)) = map (page_url cfg) vp"
    using vp(2) by (simp add: main_fields run_state run_effect_def new_scraper_def)
  moreover have "filter opened_line (logs (snd (main w cfg fs))) =
      map (\<lambda>k. msg_opened k (page_url cfg k)) vp"
    using vp(2) by (simp add: main_fields run_state run_effect_def new_scraper_def)
  ultimately show ?thesis using vp(1) by blast
qed

lemma script_opened_lines:
  "\<exists>vp rest. [1 .. TOTAL_PAGES] = vp @ rest \<and>
      visited (snd (scrape_all_pages w fs)) = map script_page_url vp \<and>
      filter opened_line (logs (snd (scrape_all_pages w fs))) =
        map (\<lambda>k. msg_opened k (script_page_url k)) vp"
proof -
  let ?ini = "\<lparr> places = [], logs = [], driver_open = True, visited = [], quit_calls = 0, files = fs \<rparr>"
  obtain vp rest where vp: "[1 .. TOTAL_PAGES] = vp @ rest"
      "run_effect script_page_url vp ?ini (snd (script_loop w [1 .. TOTAL_PAGES] ?ini))"
    using script_loop_effect [of "[1 .. TOTAL_PAGES]" ?ini w] by blast
  have "visited (snd (scrape_all_pages w fs)) = map script_page_url vp"
    using vp(2) by (simp add: scrape_all_pages_state run_effect_def)
  moreover have "filter opened_line (logs (snd (scrape_all_pages w fs))) =
      map (\<lambda>k. msg_opened k (script_page_url k)) vp"
    using vp(2) by (simp add: scrape_all_pages_state run_effect_def)
  ultimately show ?thesis using vp(1) by blast
qed

lemma main_persists_log:
  "fst (main w cfg fs) = None \<Longrightarrow>
   files (snd (main w cfg fs)) (log_filename cfg) =
     Some (TextFile (join [10] (logs (snd (main w cfg fs)))))"
  by (auto simp: main_def run_def Let_def split: prod.splits sum.splits option.splits)

section \<open>Releasing the browser session\<close>

lemma handle_protect_screen_quit_raises:
  "handle_protect_screen (w\<lparr>quit_raises := b\<rparr>) cfg page view st =
   handle_protect_screen w cfg page view st"
  by (simp add: handle_protect_screen_def is_protect_screen_def)

lemma process_page_quit_raises:
  "process_page (w\<lparr>quit_raises := b\<rparr>) cfg page st = process_page w cfg page st"
  by (simp add: process_page_def handle_protect_screen_quit_raises Let_def)

lemma run_loop_quit_raises:
  "run_loop (w\<lparr>quit_raises := b\<rparr>) cfg pages st = run_loop w cfg pages st"
  by (induction pages arbitrary: st)
    (simp_all add: process_page_quit_raises split: prod.splits sum.splits bool.splits)

lemma script_protect_step_quit_raises:
  "script_protect_step (w\<lparr>quit_raises := b\<rparr>) page view st = script_protect_step w page view st"
  by (simp add: script_protect_step_def script_is_protect_screen_def)

lemma script_page_step_quit_raises:
  "script_page_step (w\<lparr>quit_raises := b\<rparr>) page st = script_page_step w page st"
  by (simp add: script_page_step_def script_protect_step_quit_raises Let_def)

lemma script_loop_quit_raises:
  "script_loop (w\<lparr>quit_raises := b\<rparr>) pages st = script_loop w pages st"
  by (induction pages arbitrary: st)
    (simp_all add: script_page_step_quit_raises split: prod.splits sum.splits bool.splits)

lemma close_quit_raises: "close (w\<lparr>quit_raises := b\<rparr>) st = close w st"
  by (simp add: close_def driver_quit_def)

lemma run_quit_raises: "run (w\<lparr>quit_raises := b\<rparr>) cfg st = run w cfg st"
  by (simp add: run_def run_loop_quit_raises close_quit_raises)

lemma scrape_all_pages_quit_raises: "scrape_all_pages (w\<lparr>quit_raises := b\<rparr>) fs = scrape_all_pages w fs"
  by (simp add: scrape_all_pages_def script_loop_quit_raises driver_quit_def)

lemma close_idle: "\<not> driver_open st \<Longrightarrow> close w st = st"
  by (simp add: close_def)

lemma run_loop_driver:
  "driver_open (snd (run_loop w cfg pages st)) = driver_open st \<and>
   quit_calls (snd (run_loop w cfg pages st)) = quit_calls st"
  using run_loop_effect [of pages cfg st w] by (auto simp: run_effect_def)

lemma script_loop_driver:
  "driver_open (snd (script_loop w pages st)) = driver_open st \<and>
   quit_calls (snd (script_loop w pages st)) = quit_calls st"
  using script_loop_effect [of pages st w] by (auto simp: run_effect_def)

text \<open>
  C8. However the loop of \<open>run\<close> ends (all pages done, a stop, or an exception), \<open>run\<close>
  calls \<open>quit\<close> exactly once and holds no driver afterwards; its outcome is that of the loop
  (the exception of the loop, or the records and the log) and, like the whole state, does
  not depend on whether \<open>quit\<close> raises. A further \<open>close\<close> changes nothing: \<open>quit\<close> is
  not called again. The script calls \<open>quit\<close> exactly once as well, with an outcome that does
  not depend on whether \<open>quit\<close> raises.
\<close>

theorem session_released_once:
  "quit_calls (snd (run w cfg st)) = Suc (quit_calls st) \<and>
   \<not> driver_open (snd (run w cfg st)) \<and>
   fst (run w cfg st) =
     (case run_loop w cfg [1 .. total_pages cfg] (ensure_driver st) of
        (Some err, st1) \<Rightarrow> Inl err
      | (None, st1) \<Rightarrow> Inr (places st1, logs st1)) \<and>
   run (w\<lparr>quit_raises := True\<rparr>) cfg st = run (w\<lparr>quit_raises := False\<rparr>) cfg st \<and>
   close w (snd (run w cfg st)) = snd (run w cfg st) \<and>
   close w (close w st) = close w st \<and>
   quit_calls (close w (close w st)) = quit_calls (close w st) \<and>
   quit_calls (snd (scrape_all_pages w fs)) = 1 \<and>
   scrape_all_pages (w\<lparr>quit_raises := True\<rparr>) fs = scrape_all_pages (w\<lparr>quit_raises := False\<rparr>) fs"
proof (intro conjI)
  show "quit_calls (snd (run w cfg st)) = Suc (quit_calls st)"
    by (simp add: run_state run_loop_driver)
  show closed: "\<not> driver_open (snd (run w cfg st))"
    by (simp add: run_state)
  show "fst (run w cfg st) =
     (case run_loop w cfg [1 .. total_pages cfg] (ensure_driver st) of
        (Some err, st1) \<Rightarrow> Inl err
      | (None, st1) \<Rightarrow> Inr (places st1, logs st1))"
    by (simp add: run_def Let_def split: prod.splits option.splits)
  show "run (w\<lparr>quit_raises := True\<rparr>) cfg st = run (w\<lparr>quit_raises := False\<rparr>) cfg st"
    by (simp only: run_quit_raises)
  show "close w (snd (run w cfg st)) = snd (run w cfg st)"
    using closed by (rule close_idle)
  have "\<not> driver_open (close w st)" by simp
  then show idem: "close w (close w st) = close w st"
    by (rule close_idle)
  show "quit_calls (close w (close w st)) = quit_calls (close w st)"
    by (simp only: idem)
  show "quit_calls (snd (scrape_all_pages w fs)) = 1"
    by (simp add: scrape_all_pages_state script_loop_driver)
  show "scrape_all_pages (w\<lparr>quit_raises := True\<rparr>) fs = scrape_all_pages (w\<lparr>quit_raises := False\<rparr>) fs"
    by (simp only: scrape_all_pages_quit_raises)
qed

section \<open>The partial CSV file\<close>

lemma partial_names_differ: "partial_csv_name s \<noteq> partial_log_name s'"
  by (simp add: partial_csv_name_def partial_log_name_def ascii_def)

lemma save_partial_csv:
  "files (save_partial page st) (partial_csv_name (format_02d page)) =
     Some (CsvFile (df_from_places (places st)))"
  by (simp add: save_partial_def Let_def partial_names_differ)

lemma process_page_true:
  assumes "process_page w cfg page st = (Inr True, st')"
  shows "\<exists>st6. st' = save_partial page st6"
proof -
  let ?url = "page_url cfg page"
  let ?view = "site w ?url"
  let ?st2 = "after_open page ?url st"
  obtain b st3 where h: "handle_protect_screen w cfg page ?view ?st2 = (b, st3)"
    by (cases "handle_protect_screen w cfg page ?view ?st2")
  obtain ps where ps: "map parse_card (collect_cards ?view) = map Inr ps"
    using parse_all by blast
  consider (crash) "crash ?view"
    | (blocked) "\<not> crash ?view" "\<not> b"
    | (no_container) "\<not> crash ?view" b "\<not> list_ex (present ?view) CONTAINER_CANDIDATES"
    | (no_cards) "\<not> crash ?view" b "list_ex (present ?view) CONTAINER_CANDIDATES"
        "collect_cards ?view = []"
    | (success) "\<not> crash ?view" b "list_ex (present ?view) CONTAINER_CANDIDATES"
        "collect_cards ?view \<noteq> []"
    by blast
  then show ?thesis
  proof cases
    case crash
    then show ?thesis using assms by (simp add: process_page_crash)
  next
    case blocked
    then show ?thesis using assms h by (simp add: process_page_blocked)
  next
    case no_container
    then show ?thesis using assms h by (simp add: process_page_no_container)
  next
    case no_cards
    then show ?thesis using assms h by (simp add: process_page_no_cards)
  next
    case success
    have "process_page w cfg page st =
     (Inr True,
      save_partial page
        (log_append
           (msg_success page (length (collect_cards ?view)) (int (length (filter (\<lambda>p. name p \<noteq> []) ps)))
              (length (places st3 @ filter (\<lambda>p. name p \<noteq> []) ps)))
           (st3\<lparr>places := places st3 @ filter (\<lambda>p. name p \<noteq> []) ps\<rparr>)))"
      using success h ps by (intro process_page_success) simp_all
    with assms show ?thesis by auto
  qed
qed

lemma script_page_step_true:
  assumes "script_page_step w page st = (Inr True, st')"
  shows "\<exists>st6. st' = save_partial page st6"
proof -
  let ?url = "script_page_url page"
  let ?view = "site w ?url"
  define st3 where "st3 = script_protect_step w page ?view (after_open page ?url st)"
  obtain ps where ps: "map script_parse_card (collect_cards ?view) = map Inr ps"
    using script_parse_all by blast
  consider (crash) "crash ?view"
    | (no_container) "\<not> crash ?view" "\<not> list_ex (present ?view) CONTAINER_CANDIDATES"
    | (no_cards) "\<not> crash ?view" "list_ex (present ?view) CONTAINER_CANDIDATES"
        "collect_cards ?view = []"
    | (success) "\<not> crash ?view" "list_ex (present ?view) CONTAINER_CANDIDATES"
        "collect_cards ?view \<noteq> []"
    by blast
  then show ?thesis
  proof cases
    case crash
    then show ?thesis using assms by (simp add: script_page_step_crash)
  next
    case no_container
    then show ?thesis using assms by (simp add: script_page_step_no_container)
  next
    case no_cards
    then show ?thesis using assms by (simp add: script_page_step_no_cards)
  next
    case success
    have "script_page_step w page st =
     (Inr True,
      save_partial page
        (log_append
           (msg_success page (length (collect_cards ?view)) (int (length (filter (\<lambda>p. name p \<noteq> []) ps)))
              (length (places st3 @ filter (\<lambda>p. name p \<noteq> []) ps)))
           (st3\<lparr>places := places st3 @ filter (\<lambda>p. name p \<noteq> []) ps\<rparr>)))"
      using success ps st3_def by (intro script_page_step_success) simp_all
    with assms show ?thesis by auto
  qed
qed

lemma saved_csv: "st' = save_partial page st6 \<Longrightarrow>
  files st' (partial_csv_name (format_02d page)) = Some (CsvFile (df_from_places (places st')))"
  by (simp add: save_partial_csv)

lemma join_nil: "join sep [] = []"
  by simp

lemma df_rows:
  "rows (df_from_places ps) =
     map (\<lambda>p. [CellText (name p),
                (case rating p of None \<Rightarrow> CellText [] | Some x \<Rightarrow> CellFloat x),
                CellText (join (ascii '' | '') (categories p))]) ps"
  by (simp add: df_from_places_def place_row_def)

lemma df_columns: "ps \<noteq> [] \<Longrightarrow> columns (df_from_places ps) = [col_name, col_rating, col_categories]"
  by (simp add: df_from_places_def)

lemma digit_list_one: "n < 10 \<Longrightarrow> digit_list n = [n]"
  by (subst digit_list.simps) simp

lemma digit_list_two: "10 \<le> n \<Longrightarrow> n < 100 \<Longrightarrow> digit_list n = [n div 10, n mod 10]"
proof -
  assume a: "10 \<le> n" "n < 100"
  then have "n div 10 < 10" by simp
  then have "digit_list (n div 10) = [n div 10]" by (rule digit_list_one)
  then show ?thesis
    using a by (subst digit_list.simps) simp
qed

lemma format_02d_one_digit: "0 \<le> page \<Longrightarrow> page < 10 \<Longrightarrow> format_02d page = [48, 48 + nat page]"
proof -
  assume a: "0 \<le> page" "page < 10"
  then have "nat page < 10" by simp
  then have "digit_list (nat page) = [nat page]" by (rule digit_list_one)
  then show ?thesis
    using a by (simp add: format_02d_def str_nat_def)
qed

lemma format_02d_two_digits:
  "10 \<le> page \<Longrightarrow> page < 100 \<Longrightarrow>
   format_02d page = [48 + nat page div 10, 48 + nat page mod 10]"
proof -
  assume a: "10 \<le> page" "page < 100"
  then have "10 \<le> nat page" "nat page < 100" by simp_all
  then have "digit_list (nat page) = [nat page div 10, nat page mod 10]" by (rule digit_list_two)
  then show ?thesis
    using a by (simp add: format_02d_def str_nat_def)
qed

lemma save_partial_other:
  "f \<noteq> partial_csv_name (format_02d page) \<Longrightarrow> f \<noteq> partial_log_name (format_02d page) \<Longrightarrow>
   files (save_partial page st) f = files st f"
  by (simp add: save_partial_def Let_def)

lemma save_partial_log:
  "files (save_partial page st) (partial_log_name (format_02d page)) =
     Some (TextFile (join [10] (logs st)))"
  by (simp add: save_partial_def Let_def)

lemma process_page_saved:
  assumes "process_page w cfg page st = (Inr True, st')"
  shows "\<exists>st6. st' = save_partial page st6 \<and> files st6 = files st"
proof -
  let ?url = "page_url cfg page"
  let ?view = "site w ?url"
  let ?st2 = "after_open page ?url st"
  obtain b st3 where h: "handle_protect_screen w cfg page ?view ?st2 = (b, st3)"
    by (cases "handle_protect_screen w cfg page ?view ?st2")
  obtain ls where ls: "st3 = ?st2\<lparr>logs := logs ?st2 @ ls\<rparr>"
    using handle_protect_screen_effect [of w cfg page ?view ?st2] h by auto
  have f3: "files st3 = files st"
    by (simp add: ls after_open_def)
  obtain ps where ps: "map parse_card (collect_cards ?view) = map Inr ps"
    using parse_all by blast
  consider (crash) "crash ?view"
    | (blocked) "\<not> crash ?view" "\<not> b"
    | (no_container) "\<not> crash ?view" b "\<not> list_ex (present ?view) CONTAINER_CANDIDATES"
    | (no_cards) "\<not> crash ?view" b "list_ex (present ?view) CONTAINER_CANDIDATES"
        "collect_cards ?view = []"
    | (success) "\<not> crash ?view" b "list_ex (present ?view) CONTAINER_CANDIDATES"
        "collect_cards ?view \<noteq> []"
    by blast
  then show ?thesis
  proof cases
    case crash
    then show ?thesis using assms by (simp add: process_page_crash)
  next
    case blocked
    then show ?thesis using assms h by (simp add: process_page_blocked)
  next
    case no_container
    then show ?thesis using assms h by (simp add: process_page_no_container)
  next
    case no_cards
    then show ?thesis using assms h by (simp add: process_page_no_cards)
  next
    case success
    define st6 where "st6 = log_append
           (msg_success page (length (collect_cards ?view)) (int (length (filter (\<lambda>p. name p \<noteq> []) ps)))
              (length (places st3 @ filter (\<lambda>p. name p \<noteq> []) ps)))
           (st3\<lparr>places := places st3 @ filter (\<lambda>p. name p \<noteq> []) ps\<rparr>)"
    have "process_page w cfg page st = (Inr True, save_partial page st6)"
      unfolding st6_def using success h ps by (intro process_page_success) simp_all
    with assms have "st' = save_partial page st6" by simp
    moreover have "files st6 = files st"
      by (simp add: st6_def f3)
    ultimately show ?thesis by blast
  qed
qed

lemma script_page_step_saved:
  assumes "script_page_step w page st = (Inr True, st')"
  shows "\<exists>st6. st' = save_partial page st6 \<and> files st6 = files st"
proof -
  let ?url = "script_page_url page"
  let ?view = "site w ?url"
  let ?st2 = "after_open page ?url st"
  define st3 where "st3 = script_protect_step w page ?view ?st2"
  obtain ls where ls: "st3 = ?st2\<lparr>logs := logs ?st2 @ ls\<rparr>"
    unfolding st3_def using script_protect_step_effect [of w page ?view ?st2] by auto
  have f3: "files st3 = files st"
    by (simp add: ls after_open_def)
  obtain ps where ps: "map script_parse_card (collect_cards ?view) = map Inr ps"
    using script_parse_all by blast
  consider (crash) "crash ?view"
    | (no_container) "\<not> crash ?view" "\<not> list_ex (present ?view) CONTAINER_CANDIDATES"
    | (no_cards) "\<not> crash ?view" "list_ex (present ?view) CONTAINER_CANDIDATES"
        "collect_cards ?view = []"
    | (success) "\<not> crash ?view" "list_ex (present ?view) CONTAINER_CANDIDATES"
        "collect_cards ?view \<noteq> []"
    by blast
  then show ?thesis
  proof cases
    case crash
    then show ?thesis using assms by (simp add: script_page_step_crash)
  next
    case no_container
    then show ?thesis using assms by (simp add: script_page_step_no_container)
  next
    case no_cards
    then show ?thesis using assms by (simp add: script_page_step_no_cards)
  next
    case success
    define st6 where "st6 = log_append
           (msg_success page (length (collect_cards ?view)) (int (length (filter (\<lambda>p. name p \<noteq> []) ps)))
              (length (places st3 @ filter (\<lambda>p. name p \<noteq> []) ps)))
           (st3\<lparr>places := places st3 @ filter (\<lambda>p. name p \<noteq> []) ps\<rparr>)"
    have "script_page_step w page st = (Inr True, save_partial page st6)"
      unfolding st6_def using success ps st3_def by (intro script_page_step_success) simp_all
    with assms have "st' = save_partial page st6" by simp
    moreover have "files st6 = files st"
      by (simp add: st6_def f3)
    ultimately show ?thesis by blast
  qed
qed

lemma saved_other:
  "st' = save_partial page st6 \<Longrightarrow> files st6 = files st \<Longrightarrow>
   f \<noteq> partial_csv_name (format_02d page) \<Longrightarrow> f \<noteq> partial_log_name (format_02d page) \<Longrightarrow>
   files st' f = files st f"
  by (simp add: save_partial_other)

lemma join_concat:
  "xs \<noteq> [] \<Longrightarrow> join sep xs = concat (map (\<lambda>x. x @ sep) (butlast xs)) @ last xs"
  by (induction sep xs rule: join.induct) simp_all

lemma dec_value_append: "dec_value (a @ b) = foldl (\<lambda>a c. 10 * a + (c - 48)) (dec_value a) b"
  by (simp add: dec_value_def)

lemma dec_value_zeros: "dec_value (replicate k 48 @ s) = dec_value s"
proof -
  have "foldl (\<lambda>a c. 10 * a + (c - 48)) 0 (replicate k 48) = (0::nat)"
    by (induction k) simp_all
  then show ?thesis
    by (simp add: dec_value_def)
qed

lemma format_02d_value:
  assumes "0 \<le> page"
  shows "dec_value (format_02d page) = nat page"
    and "2 \<le> length (format_02d page)"
    and "list_all (\<lambda>c. 48 \<le> c \<and> c \<le> 57) (format_02d page)"
proof -
  have f: "format_02d page = replicate (2 - length (str_nat (nat page))) 48 @ str_nat (nat page)"
    using assms by (simp add: format_02d_def)
  show "dec_value (format_02d page) = nat page"
    by (simp only: f dec_value_zeros dec_value_str_nat)
  show "2 \<le> length (format_02d page)"
    by (simp add: f)
  show "list_all (\<lambda>c. 48 \<le> c \<and> c \<le> 57) (format_02d page)"
    using str_nat_digits [of _ "nat page"] by (auto simp: f list_all_iff)
qed

lemma partial_csv_name_inj: "partial_csv_name s = partial_csv_name s' \<longleftrightarrow> s = s'"
  by (simp add: partial_csv_name_def)

lemma partial_csv_name_page_inj:
  assumes "0 \<le> page" "0 \<le> q" "partial_csv_name (format_02d q) = partial_csv_name (format_02d page)"
  shows "q = page"
proof -
  have "format_02d q = format_02d page"
    using assms(3) by (simp only: partial_csv_name_inj)
  then have "dec_value (format_02d q) = dec_value (format_02d page)" by simp
  then have "nat q = nat page"
    using assms(1,2) by (simp add: format_02d_value)
  then show ?thesis using assms(1,2) by simp
qed


lemma example_page_one:
  "process_page example_world example_config 1 (new_scraper Map.empty) =
     (Inr True,
      save_partial 1
        (log_append (msg_success 1 2 2 2)
           ((after_open 1 (page_url example_config 1) (new_scraper Map.empty))
              \<lparr>places :=
                 [\<lparr> name = ascii ''Alpha'', rating = Some (Finite (9 / 2)), categories = [ascii ''Cafe''] \<rparr>,
                  \<lparr> name = ascii ''Beta'', rating = Some (Finite (9 / 2)), categories = [ascii ''Cafe''] \<rparr>]\<rparr>)))"
proof -
  let ?pa = "\<lparr> name = ascii ''Alpha'', rating = Some (Finite (9 / 2)), categories = [ascii ''Cafe''] \<rparr>"
  let ?pb = "\<lparr> name = ascii ''Beta'', rating = Some (Finite (9 / 2)), categories = [ascii ''Cafe''] \<rparr>"
  let ?ini = "new_scraper Map.empty"
  have nc: "\<not> crash (site example_world (page_url example_config 1))"
    by (simp add: example_site plain_view_def)
  have h: "handle_protect_screen example_world example_config 1
      (site example_world (page_url example_config 1)) (after_open 1 (page_url example_config 1) ?ini)
      = (True, after_open 1 (page_url example_config 1) ?ini)"
    by (rule handle_protect_screen_clear) (simp add: example_site plain_view_clear)
  have pr: "list_ex (present (site example_world (page_url example_config 1))) CONTAINER_CANDIDATES"
    by (simp add: example_site plain_view_present)
  have cc: "collect_cards (site example_world (page_url example_config 1)) =
     [example_card (ascii ''Alpha''), example_card (ascii ''Beta'')]"
    by (simp add: example_site example_cards)
  have m: "map parse_card [example_card (ascii ''Alpha''), example_card (ascii ''Beta'')] =
      map Inr [?pa, ?pb]"
    by (simp add: example_card_place py_strip_examples)
  have ne: "name ?pa \<noteq> []" "name ?pb \<noteq> []"
    by (simp_all add: ascii_def)
  show ?thesis
    using process_page_success [OF nc h pr cc _ m] ne
    by (simp add: after_open_def new_scraper_def numeral_2_eq_2)
qed

lemma example_page_one_any:
  "process_page example_world example_config 1 st =
     (Inr True,
      save_partial 1
        (log_append (msg_success 1 2 2 (length (places st) + 2))
           ((after_open 1 (page_url example_config 1) st)
              \<lparr>places := places st @
                 [\<lparr> name = ascii ''Alpha'', rating = Some (Finite (9 / 2)), categories = [ascii ''Cafe''] \<rparr>,
                  \<lparr> name = ascii ''Beta'', rating = Some (Finite (9 / 2)), categories = [ascii ''Cafe''] \<rparr>]\<rparr>)))"
proof -
  let ?pa = "\<lparr> name = ascii ''Alpha'', rating = Some (Finite (9 / 2)), categories = [ascii ''Cafe''] \<rparr>"
  let ?pb = "\<lparr> name = ascii ''Beta'', rating = Some (Finite (9 / 2)), categories = [ascii ''Cafe''] \<rparr>"
  have nc: "\<not> crash (site example_world (page_url example_config 1))"
    by (simp add: example_site plain_view_def)
  have h: "handle_protect_screen example_world example_config 1
      (site example_world (page_url example_config 1)) (after_open 1 (page_url example_config 1) st)
      = (True, after_open 1 (page_url example_config 1) st)"
    by (rule handle_protect_screen_clear) (simp add: example_site plain_view_clear)
  have pr: "list_ex (present (site example_world (page_url example_config 1))) CONTAINER_CANDIDATES"
    by (simp add: example_site plain_view_present)
  have cc: "collect_cards (site example_world (page_url example_config 1)) =
     [example_card (ascii ''Alpha''), example_card (ascii ''Beta'')]"
    by (simp add: example_site example_cards)
  have m: "map parse_card [example_card (ascii ''Alpha''), example_card (ascii ''Beta'')] =
      map Inr [?pa, ?pb]"
    by (simp add: example_card_place py_strip_examples)
  have ne: "name ?pa \<noteq> []" "name ?pb \<noteq> []"
    by (simp_all add: ascii_def)
  show ?thesis
    using process_page_success [OF nc h pr cc _ m] ne
    by (simp add: after_open_def numeral_2_eq_2)
qed


lemma blank_page_one:
  "process_page blank_world example_config 1 (new_scraper Map.empty) =
     (Inr True,
      save_partial 1
        (log_append (msg_success 1 2 0 0)
           ((after_open 1 (page_url example_config 1) (new_scraper Map.empty))
              \<lparr>places := []\<rparr>)))"
proof -
  let ?pa = "\<lparr> name = [], rating = Some (Finite (9 / 2)), categories = [ascii ''Cafe''] \<rparr>"
  let ?ini = "new_scraper Map.empty"
  have site: "site blank_world (page_url example_config 1) =
      plain_view [example_card (ascii ''  ''), example_card (ascii '' '')]"
    by (simp add: example_urls blank_world_def)
  have nc: "\<not> crash (site blank_world (page_url example_config 1))"
    by (simp add: site plain_view_def)
  have "\<not> challenged_at blank_world (site blank_world (page_url example_config 1)) 0"
    by (simp add: site challenged_at_def is_protect_screen_def blank_world_def plain_view_def
        PROTECT_TOKENS_def ascii_def)
  then have h: "handle_protect_screen blank_world example_config 1
      (site blank_world (page_url example_config 1)) (after_open 1 (page_url example_config 1) ?ini)
      = (True, after_open 1 (page_url example_config 1) ?ini)"
    by (rule handle_protect_screen_clear)
  have pr: "list_ex (present (site blank_world (page_url example_config 1))) CONTAINER_CANDIDATES"
    by (simp add: site plain_view_present)
  have cc: "collect_cards (site blank_world (page_url example_config 1)) =
     [example_card (ascii ''  ''), example_card (ascii '' '')]"
    by (simp add: site collect_cards_def CARD_SELECTORS_def find_elements_def selects_def
      plain_view_def example_card_def)
  have sp: "py_strip (ascii '' '') = []"
    by (simp add: py_strip_def is_space_def ascii_def)
  have m: "map parse_card [example_card (ascii ''  ''), example_card (ascii '' '')] =
      map Inr [?pa, ?pa]"
    by (simp add: example_card_place py_strip_examples sp)
  have pl: "places (after_open 1 (page_url example_config 1) ?ini) = []"
    by (simp add: after_open_def new_scraper_def)
  show ?thesis
    using process_page_success [OF nc h pr cc _ m]
    by (simp add: pl numeral_2_eq_2)
qed


section \<open>Challenge screens\<close>

lemma poll_iff: "poll ch i n \<longleftrightarrow> (\<exists>j. i \<le> j \<and> j < i + n \<and> \<not> ch j)"
proof (induction n arbitrary: i)
  case 0
  then show ?case by simp
next
  case (Suc n)
  show ?case
  proof (cases "ch i")
    case False
    then show ?thesis by auto
  next
    case True
    have "(\<exists>j. Suc i \<le> j \<and> j < Suc i + n \<and> \<not> ch j) \<longleftrightarrow> (\<exists>j. i \<le> j \<and> j < i + Suc n \<and> \<not> ch j)"
    proof
      assume "\<exists>j. Suc i \<le> j \<and> j < Suc i + n \<and> \<not> ch j"
      then obtain j where "Suc i \<le> j" "j < Suc i + n" "\<not> ch j" by blast
      then have "i \<le> j \<and> j < i + Suc n \<and> \<not> ch j" by simp
      then show "\<exists>j. i \<le> j \<and> j < i + Suc n \<and> \<not> ch j" by blast
    next
      assume "\<exists>j. i \<le> j \<and> j < i + Suc n \<and> \<not> ch j"
      then obtain j where j: "i \<le> j" "j < i + Suc n" "\<not> ch j" by blast
      with True have "j \<noteq> i" by auto
      with j have "Suc i \<le> j \<and> j < Suc i + n \<and> \<not> ch j" by simp
      then show "\<exists>j. Suc i \<le> j \<and> j < Suc i + n \<and> \<not> ch j" by blast
    qed
    with True Suc.IH [of "Suc i"] show ?thesis by simp
  qed
qed

lemma poll_all_challenged: "(\<forall>j < i + n. ch j) \<Longrightarrow> \<not> poll ch i n"
  by (auto simp: poll_iff)

lemma run_loop_stop:
  "process_page w cfg page st = (Inr False, st') \<Longrightarrow> run_loop w cfg (page # pages) st = (None, st')"
  by simp

lemma script_goes_on:
  assumes "\<not> crash (site w (script_page_url page))"
    and "list_ex (present (site w (script_page_url page))) CONTAINER_CANDIDATES"
    and "collect_cards (site w (script_page_url page)) \<noteq> []"
  shows "fst (script_page_step w page st) = Inr True"
proof -
  obtain ps where ps: "map script_parse_card (collect_cards (site w (script_page_url page))) = map Inr ps"
    using script_parse_all by blast
  show ?thesis
    using script_page_step_success [OF assms(1,2) refl assms(3) ps refl, of st] by simp
qed

lemma process_page_challenge_abort:
  assumes "\<not> crash (site w (page_url cfg page))"
    and "\<forall>i \<le> nat (protect_poll_attempts cfg). challenged_at w (site w (page_url cfg page)) i"
    and "headless cfg \<or>
         (\<forall>i \<le> nat (protect_poll_attempts cfg) + nat (protect_manual_retry_attempts cfg).
            challenged_at w (site w (page_url cfg page)) i)"
  shows "\<exists>st'. process_page w cfg page st = (Inr False, st') \<and>
           run_loop w cfg (page # pages) st = (None, st') \<and>
           visited st' = visited st @ [page_url cfg page] \<and>
           places st' = places st \<and> files st' = files st \<and>
           logs st' = logs st @ msg_opened page (page_url cfg page) #
             (if headless cfg
              then [msg_page page txt_protect_wait, msg_page page txt_protect_failed]
              else [msg_page page txt_protect_wait, msg_page page txt_manual,
                    msg_page page txt_manual_failed])"
proof -
  let ?url = "page_url cfg page"
  let ?view = "site w ?url"
  let ?st2 = "after_open page ?url st"
  let ?p = "nat (protect_poll_attempts cfg)"
  let ?m = "nat (protect_manual_retry_attempts cfg)"
  have c0: "challenged_at w ?view 0"
    using assms(2) by simp
  have np: "\<not> poll (challenged_at w ?view) 1 ?p"
    using assms(2) by (intro poll_all_challenged) simp
  show ?thesis
  proof (cases "headless cfg")
    case True
    let ?st' = "log_append (msg_page page txt_protect_failed)
                 (log_append (msg_page page txt_protect_wait) ?st2)"
    have h: "handle_protect_screen w cfg page ?view ?st2 = (False, ?st')"
      using c0 np True by (rule handle_protect_screen_headless)
    have pp: "process_page w cfg page st = (Inr False, ?st')"
      using assms(1) h by (rule process_page_blocked)
    have rl: "run_loop w cfg (page # pages) st = (None, ?st')"
      using pp by (rule run_loop_stop)
    have "visited ?st' = visited st @ [?url] \<and> places ?st' = places st \<and> files ?st' = files st \<and>
        logs ?st' = logs st @ msg_opened page ?url #
          [msg_page page txt_protect_wait, msg_page page txt_protect_failed]"
      by (simp add: after_open_def)
    with pp rl True show ?thesis
      by (intro exI [of _ ?st']) simp
  next
    case False
    with assms(3) have all: "\<forall>i \<le> ?p + ?m. challenged_at w ?view i"
      by blast
    have nm: "\<not> poll (challenged_at w ?view) (1 + ?p) ?m"
      using all by (intro poll_all_challenged) simp
    let ?st' = "log_append (msg_page page txt_manual_failed)
                 (log_append (msg_page page txt_manual)
                    (log_append (msg_page page txt_protect_wait) ?st2))"
    have h: "handle_protect_screen w cfg page ?view ?st2 = (False, ?st')"
      using c0 np False nm by (rule handle_protect_screen_manual_failed)
    have pp: "process_page w cfg page st = (Inr False, ?st')"
      using assms(1) h by (rule process_page_blocked)
    have rl: "run_loop w cfg (page # pages) st = (None, ?st')"
      using pp by (rule run_loop_stop)
    have "visited ?st' = visited st @ [?url] \<and> places ?st' = places st \<and> files ?st' = files st \<and>
        logs ?st' = logs st @ msg_opened page ?url #
          [msg_page page txt_protect_wait, msg_page page txt_manual, msg_page page txt_manual_failed]"
      by (simp add: after_open_def)
    with pp rl False show ?thesis
      by (intro exI [of _ ?st']) simp
  qed
qed

text \<open>
  C2, as the code has it. In the scraper of \<open>src/main.py\<close>: when the detector reports a
  challenge at the first check and at every one of the automatic polls, and the run is
  headless, or it is not headless and the detector reports a challenge at every one of the
  manual retries as well, the page step logs the failure and stops the run: the loop ends
  with this page, whatever pages remain, having visited this page last and added no record.
  The script has no such stop: its page step goes on whenever the container and at least one
  card are found, whatever the detector reports.
\<close>

theorem challenge_abort:
  assumes "\<not> crash (site w (page_url cfg page))"
    and "\<forall>i \<le> nat (protect_poll_attempts cfg). challenged_at w (site w (page_url cfg page)) i"
    and "headless cfg \<or>
         (\<forall>i \<le> nat (protect_poll_attempts cfg) + nat (protect_manual_retry_attempts cfg).
            challenged_at w (site w (page_url cfg page)) i)"
  shows "(\<exists>st'. process_page w cfg page st = (Inr False, st') \<and>
           run_loop w cfg (page # pages) st = (None, st') \<and>
           visited st' = visited st @ [page_url cfg page] \<and>
           places st' = places st \<and> files st' = files st \<and>
           logs st' = logs st @ msg_opened page (page_url cfg page) #
             (if headless cfg
              then [msg_page page txt_protect_wait, msg_page page txt_protect_failed]
              else [msg_page page txt_protect_wait, msg_page page txt_manual,
                    msg_page page txt_manual_failed])) \<and>
         (\<not> crash (site w (script_page_url k)) \<and>
          list_ex (present (site w (script_page_url k))) CONTAINER_CANDIDATES \<and>
          collect_cards (site w (script_page_url k)) \<noteq> [] \<longrightarrow>
          fst (script_page_step w k s) = Inr True)"
proof (intro conjI impI)
  show "\<exists>st'. process_page w cfg page st = (Inr False, st') \<and>
           run_loop w cfg (page # pages) st = (None, st') \<and>
           visited st' = visited st @ [page_url cfg page] \<and>
           places st' = places st \<and> files st' = files st \<and>
           logs st' = logs st @ msg_opened page (page_url cfg page) #
             (if headless cfg
              then [msg_page page txt_protect_wait, msg_page page txt_protect_failed]
              else [msg_page page txt_protect_wait, msg_page page txt_manual,
                    msg_page page txt_manual_failed])"
    using assms by (rule process_page_challenge_abort)
next
  assume "\<not> crash (site w (script_page_url k)) \<and>
          list_ex (present (site w (script_page_url k))) CONTAINER_CANDIDATES \<and>
          collect_cards (site w (script_page_url k)) \<noteq> []"
  then show "fst (script_page_step w k s) = Inr True"
    by (intro script_goes_on) simp_all
qed

lemma stuck_challenged: "challenged_at stuck_world stuck_view i"
  by (simp add: challenged_at_def is_protect_screen_def stuck_world_def stuck_view_def
      PROTECT_TOKENS_def ascii_def)

lemma stuck_site:
  "site stuck_world (ascii ''https://zoon.ru/tomsk/restaurants/'') = stuck_view"
  "site stuck_world (ascii ''https://zoon.ru/tomsk/restaurants/page-2/'') = plain_view []"
  by (simp_all add: stuck_world_def) (simp add: ascii_def)

lemma headless_url: "page_url headless_config 1 = ascii ''https://zoon.ru/tomsk/restaurants/''"
  by (simp add: page_url_def headless_config_def default_config_def)

theorem challenge_abort_witness:
  "headless headless_config \<and>
   list_all (challenged_at stuck_world (site stuck_world (page_url headless_config 1))) [0 ..< 11] \<and>
   (\<exists>st'. run_loop stuck_world headless_config [1, 2, 3] (new_scraper Map.empty) = (None, st') \<and>
      visited st' = [page_url headless_config 1] \<and>
      logs st' = [msg_opened 1 (page_url headless_config 1), msg_page 1 txt_protect_wait,
                  msg_page 1 txt_protect_failed])"
proof -
  have hl: "headless headless_config"
    by (simp add: headless_config_def)
  have nc: "\<not> crash (site stuck_world (page_url headless_config 1))"
    by (simp add: headless_url stuck_site) (simp add: stuck_view_def)
  have ch: "\<forall>i \<le> nat (protect_poll_attempts headless_config).
      challenged_at stuck_world (site stuck_world (page_url headless_config 1)) i"
    by (simp add: headless_url stuck_site stuck_challenged)
  have la: "list_all (challenged_at stuck_world (site stuck_world (page_url headless_config 1))) [0 ..< 11]"
    by (simp add: headless_url stuck_site stuck_challenged list_all_iff)
  from challenge_abort [OF nc ch disjI1 [OF hl], of "new_scraper Map.empty" "[2, 3]" 1
      "new_scraper Map.empty", THEN conjunct1]
  obtain st' where st': "run_loop stuck_world headless_config [1, 2, 3] (new_scraper Map.empty) = (None, st')"
      "visited st' = visited (new_scraper Map.empty) @ [page_url headless_config 1]"
      "logs st' = logs (new_scraper Map.empty) @ msg_opened 1 (page_url headless_config 1) #
             (if headless headless_config
              then [msg_page 1 txt_protect_wait, msg_page 1 txt_protect_failed]
              else [msg_page 1 txt_protect_wait, msg_page 1 txt_manual, msg_page 1 txt_manual_failed])"
    by (elim exE conjE) (rule that, assumption+)
  have "visited st' = [page_url headless_config 1]"
    using st'(2) by (simp add: new_scraper_def)
  moreover have "logs st' = [msg_opened 1 (page_url headless_config 1), msg_page 1 txt_protect_wait,
                  msg_page 1 txt_protect_failed]"
    using st'(3) hl by (simp add: new_scraper_def)
  ultimately have "\<exists>st'. run_loop stuck_world headless_config [1, 2, 3] (new_scraper Map.empty) = (None, st') \<and>
      visited st' = [page_url headless_config 1] \<and>
      logs st' = [msg_opened 1 (page_url headless_config 1), msg_page 1 txt_protect_wait,
                  msg_page 1 txt_protect_failed]"
    using st'(1) by (intro exI [of _ st'] conjI)
  with hl la show ?thesis by (intro conjI)
qed

lemma script_protect_step_fields [simp]:
  "places (script_protect_step w page view st) = places st"
  "visited (script_protect_step w page view st) = visited st"
  "driver_open (script_protect_step w page view st) = driver_open st"
  "quit_calls (script_protect_step w page view st) = quit_calls st"
  "files (script_protect_step w page view st) = files st"
proof -
  obtain ls where "script_protect_step w page view st = st\<lparr>logs := logs st @ ls\<rparr>"
    using script_protect_step_effect by blast
  then show "places (script_protect_step w page view st) = places st"
    "visited (script_protect_step w page view st) = visited st"
    "driver_open (script_protect_step w page view st) = driver_open st"
    "quit_calls (script_protect_step w page view st) = quit_calls st"
    "files (script_protect_step w page view st) = files st"
    by simp_all
qed

lemma example_card_script_place:
  "script_parse_card (example_card t) =
     Inr \<lparr> name = py_strip t, rating = Some (Finite (9 / 2)), categories = [ascii ''Cafe''] \<rparr>"
proof -
  have "script_parse_name (example_card t) = py_strip t"
    by (simp add: script_parse_name_def example_card_def find_element_def find_elements_def
        selects_def)
  then show ?thesis
    by (simp add: script_parse_card_def script_parse_rating_eq script_parse_categories_eq
        example_card_rating example_card_categories)
qed

lemma script_urls:
  "script_page_url 1 = ascii ''https://zoon.ru/tomsk/restaurants/''"
  "script_page_url 2 = ascii ''https://zoon.ru/tomsk/restaurants/page-2/''"
proof -
  show "script_page_url 1 = ascii ''https://zoon.ru/tomsk/restaurants/''"
    by (simp add: script_page_url_def CITY_URL_def)
  have s: "str_int 2 = ascii ''2''"
    by (simp add: str_int_def str_nat_def digit_list.simps ascii_def)
  have r: "rstrip_chars (ascii ''/'') CITY_URL = ascii ''https://zoon.ru/tomsk/restaurants''"
    by (simp add: rstrip_chars_def CITY_URL_def ascii_def)
  show "script_page_url 2 = ascii ''https://zoon.ru/tomsk/restaurants/page-2/''"
    by (simp add: script_page_url_def r s) (simp add: ascii_def)
qed

lemma stuck_cards: "collect_cards stuck_view = [example_card (ascii ''Alpha'')]"
  by (simp add: collect_cards_def CARD_SELECTORS_def find_elements_def selects_def
      stuck_view_def example_card_def)

lemma stuck_script_page_one:
  "\<exists>st1. script_page_step stuck_world 1 st = (Inr True, st1) \<and>
     visited st1 = visited st @ [script_page_url 1] \<and>
     map name (places st1) = map name (places st) @ [ascii ''Alpha'']"
proof -
  let ?pa = "\<lparr> name = ascii ''Alpha'', rating = Some (Finite (9 / 2)), categories = [ascii ''Cafe''] \<rparr>"
  let ?st3 = "script_protect_step stuck_world 1 (site stuck_world (script_page_url 1))
           (after_open 1 (script_page_url 1) st)"
  have nc: "\<not> crash (site stuck_world (script_page_url 1))"
    by (simp add: script_urls stuck_site) (simp add: stuck_view_def)
  have pr: "list_ex (present (site stuck_world (script_page_url 1))) CONTAINER_CANDIDATES"
    by (simp add: script_urls stuck_site) (simp add: stuck_view_def CONTAINER_CANDIDATES_def)
  have cc: "collect_cards (site stuck_world (script_page_url 1)) = [example_card (ascii ''Alpha'')]"
    by (simp add: script_urls stuck_site stuck_cards)
  have m: "map script_parse_card [example_card (ascii ''Alpha'')] = map Inr [?pa]"
    by (simp add: example_card_script_place py_strip_examples)
  have ne: "name ?pa \<noteq> []"
    by (simp add: ascii_def)
  define st1 where "st1 = save_partial 1
        (log_append
           (msg_success 1 (length [example_card (ascii ''Alpha'')])
              (int (length (filter (\<lambda>p. name p \<noteq> []) [?pa])))
              (length (places ?st3 @ filter (\<lambda>p. name p \<noteq> []) [?pa])))
           (?st3\<lparr>places := places ?st3 @ filter (\<lambda>p. name p \<noteq> []) [?pa]\<rparr>))"
  have step: "script_page_step stuck_world 1 st = (Inr True, st1)"
    unfolding st1_def using nc pr cc _ m refl by (rule script_page_step_success) simp
  have "visited st1 = visited st @ [script_page_url 1]"
    by (simp add: st1_def after_open_def)
  moreover have "map name (places st1) = map name (places st) @ [ascii ''Alpha'']"
    using ne by (simp add: st1_def after_open_def)
  ultimately show ?thesis
    using step by (intro exI [of _ st1] conjI)
qed

lemma stuck_script_page_two:
  "\<exists>st2. script_page_step stuck_world 2 st = (Inr False, st2) \<and>
     visited st2 = visited st @ [script_page_url 2] \<and> places st2 = places st"
proof -
  let ?st2 = "log_append (msg_page 2 txt_no_cards)
        (script_protect_step stuck_world 2 (site stuck_world (script_page_url 2))
           (after_open 2 (script_page_url 2) st))"
  have nc: "\<not> crash (site stuck_world (script_page_url 2))"
    by (simp add: script_urls stuck_site) (simp add: plain_view_def)
  have pr: "list_ex (present (site stuck_world (script_page_url 2))) CONTAINER_CANDIDATES"
    by (simp add: script_urls stuck_site plain_view_present)
  have cc: "collect_cards (site stuck_world (script_page_url 2)) = []"
    by (simp add: script_urls stuck_site example_cards)
  have step: "script_page_step stuck_world 2 st = (Inr False, ?st2)"
    using nc pr cc by (rule script_page_step_no_cards)
  have "visited ?st2 = visited st @ [script_page_url 2]" "places ?st2 = places st"
    by (simp_all add: after_open_def)
  with step show ?thesis
    by (intro exI [of _ ?st2] conjI)
qed

theorem script_no_abort_counterexample:
  "\<not> HEADLESS \<and>
   list_all (challenged_at stuck_world (site stuck_world (script_page_url 1))) [0 ..< 9] \<and>
   fst (script_page_step stuck_world 1 (new_scraper Map.empty)) = Inr True \<and>
   visited (snd (scrape_all_pages stuck_world Map.empty)) = [script_page_url 1, script_page_url 2] \<and>
   map name (places (snd (scrape_all_pages stuck_world Map.empty))) = [ascii ''Alpha'']"
proof -
  let ?ini = "\<lparr> places = [], logs = [], driver_open = True, visited = [], quit_calls = 0,
      files = Map.empty \<rparr>"
  have h: "\<not> HEADLESS"
    by (simp add: HEADLESS_def)
  have la: "list_all (challenged_at stuck_world (site stuck_world (script_page_url 1))) [0 ..< 9]"
    by (simp add: script_urls stuck_site stuck_challenged list_all_iff)
  obtain s1 where s1: "script_page_step stuck_world 1 (new_scraper Map.empty) = (Inr True, s1)"
    using stuck_script_page_one [of "new_scraper Map.empty"] by blast
  have one: "fst (script_page_step stuck_world 1 (new_scraper Map.empty)) = Inr True"
    by (simp add: s1)
  obtain st1 where st1: "script_page_step stuck_world 1 ?ini = (Inr True, st1)"
      "visited st1 = visited ?ini @ [script_page_url 1]"
      "map name (places st1) = map name (places ?ini) @ [ascii ''Alpha'']"
    using stuck_script_page_one [of ?ini] by blast
  obtain st2 where st2: "script_page_step stuck_world 2 st1 = (Inr False, st2)"
      "visited st2 = visited st1 @ [script_page_url 2]" "places st2 = places st1"
    using stuck_script_page_two [of st1] by blast
  have pages: "[1 .. TOTAL_PAGES] = 1 # 2 # [3 .. 34]"
    by (simp add: TOTAL_PAGES_def upto_rec1)
  have loop: "script_loop stuck_world [1 .. TOTAL_PAGES] ?ini = (None, st2)"
    unfolding pages by (simp add: st1(1) st2(1))
  have v: "visited (snd (scrape_all_pages stuck_world Map.empty)) = [script_page_url 1, script_page_url 2]"
    by (simp add: scrape_all_pages_state loop st2(2) st1(2))
  have p: "map name (places (snd (scrape_all_pages stuck_world Map.empty))) = [ascii ''Alpha'']"
    by (simp add: scrape_all_pages_state loop st2(3) st1(3))
  from h la one v p show ?thesis by (intro conjI)
qed

section \<open>The two variants compared\<close>

lemma script_page_url_eq: "city_url cfg = CITY_URL \<Longrightarrow> script_page_url k = page_url cfg k"
  by (simp add: script_page_url_def page_url_def)

lemma script_parse_card_eq:
  "script_parse_name crd = extract_name crd \<Longrightarrow> script_parse_card crd = parse_card crd"
  by (simp add: script_parse_card_def parse_card_def script_parse_rating_eq
      script_parse_categories_eq split: sum.splits)

lemma names_agree_on_title_link:
  assumes "find_element [''a.title-link.js-item-url''] (descendants crd) = Inr e"
    and "\<not> list_all is_space (etext e)"
  shows "script_parse_name crd = extract_name crd"
proof -
  have "py_strip (etext e) \<noteq> []"
    using assms(2) by (simp add: py_strip_empty)
  then show ?thesis
    using assms(1) by (simp add: script_parse_name_def extract_name_def TITLE_SELECTORS_def Let_def)
qed

lemma find_elements_none:
  "find_elements (a @ b) es = [] \<longleftrightarrow> find_elements a es = [] \<and> find_elements b es = []"
  by (auto simp: find_elements_def selects_def filter_empty_conv)

lemma names_agree_without_title:
  assumes "find_elements [''a.title-link.js-item-url'', ''.minicard-item__title'', ''h2'']
             (descendants crd) = []"
  shows "script_parse_name crd = [] \<and> extract_name crd = []"
proof -
  have a: "find_elements [''a.title-link.js-item-url''] (descendants crd) = []"
    and b: "find_elements [''.minicard-item__title''] (descendants crd) = []"
    and c: "find_elements [''h2''] (descendants crd) = []"
    and d: "find_elements [''.minicard-item__title'', ''h2''] (descendants crd) = []"
    using assms
      find_elements_none [of "[''a.title-link.js-item-url'']" "[''.minicard-item__title'', ''h2'']"
        "descendants crd"]
      find_elements_none [of "[''.minicard-item__title'']" "[''h2'']" "descendants crd"]
    by simp_all
  show ?thesis
    by (simp add: script_parse_name_def extract_name_def TITLE_SELECTORS_def find_element_def a b c d)
qed

lemma script_append_loop_eq:
  "list_all (\<lambda>c. script_parse_name c = extract_name c) cards \<Longrightarrow>
   script_append_loop cards st = append_loop cards st"
  by (induction cards arbitrary: st) (auto simp: script_parse_card_eq split: sum.splits)

lemma append_loop_none: "fst (append_loop cards st) = None"
  using parse_all [of cards] append_loop_result [of cards _ st] by auto

lemma page_steps_agree:
  assumes u: "city_url cfg = CITY_URL"
    and clear: "\<not> challenged_at w (site w (page_url cfg page)) 0"
    and names: "list_all (\<lambda>c. script_parse_name c = extract_name c)
                  (collect_cards (site w (page_url cfg page)))"
  shows "script_page_step w page st = process_page w cfg page st"
proof -
  have url: "script_page_url page = page_url cfg page"
    using u by (rule script_page_url_eq)
  let ?url = "page_url cfg page"
  let ?view = "site w ?url"
  let ?st2 = "after_open page ?url st"
  have h: "handle_protect_screen w cfg page ?view ?st2 = (True, ?st2)"
    using clear by (rule handle_protect_screen_clear)
  have s: "script_protect_step w page ?view ?st2 = ?st2"
    using clear by (rule script_protect_step_clear)
  obtain ps where ps: "map parse_card (collect_cards ?view) = map Inr ps"
    using parse_all by blast
  have "map script_parse_card (collect_cards ?view) = map parse_card (collect_cards ?view)"
    using names by (simp add: list_all_iff script_parse_card_eq)
  then have sps: "map script_parse_card (collect_cards ?view) = map Inr ps"
    using ps by simp
  consider (crash) "crash ?view"
    | (no_container) "\<not> crash ?view" "\<not> list_ex (present ?view) CONTAINER_CANDIDATES"
    | (no_cards) "\<not> crash ?view" "list_ex (present ?view) CONTAINER_CANDIDATES"
        "collect_cards ?view = []"
    | (success) "\<not> crash ?view" "list_ex (present ?view) CONTAINER_CANDIDATES"
        "collect_cards ?view \<noteq> []"
    by blast
  then show ?thesis
  proof cases
    case crash
    then show ?thesis
      by (simp add: process_page_crash script_page_step_crash url)
  next
    case no_container
    have "process_page w cfg page st = (Inr False, log_append (msg_page page txt_no_container) ?st2)"
      using no_container(1) h no_container(2) by (rule process_page_no_container)
    moreover have "script_page_step w page st =
        (Inr False, log_append (msg_page page txt_no_container) ?st2)"
      using no_container by (simp add: script_page_step_no_container url s)
    ultimately show ?thesis by simp
  next
    case no_cards
    have "process_page w cfg page st = (Inr False, log_append (msg_page page txt_no_cards) ?st2)"
      using no_cards(1) h no_cards(2,3) by (rule process_page_no_cards)
    moreover have "script_page_step w page st =
        (Inr False, log_append (msg_page page txt_no_cards) ?st2)"
      using no_cards by (simp add: script_page_step_no_cards url s)
    ultimately show ?thesis by simp
  next
    case success
    have "process_page w cfg page st =
     (Inr True,
      save_partial page
        (log_append
           (msg_success page (length (collect_cards ?view)) (int (length (filter (\<lambda>p. name p \<noteq> []) ps)))
              (length (places ?st2 @ filter (\<lambda>p. name p \<noteq> []) ps)))
           (?st2\<lparr>places := places ?st2 @ filter (\<lambda>p. name p \<noteq> []) ps\<rparr>)))"
      using success(1) h success(2) refl success(3) ps by (rule process_page_success)
    moreover have "script_page_step w page st =
     (Inr True,
      save_partial page
        (log_append
           (msg_success page (length (collect_cards ?view)) (int (length (filter (\<lambda>p. name p \<noteq> []) ps)))
              (length (places ?st2 @ filter (\<lambda>p. name p \<noteq> []) ps)))
           (?st2\<lparr>places := places ?st2 @ filter (\<lambda>p. name p \<noteq> []) ps\<rparr>)))"
      using success sps s by (intro script_page_step_success) (simp_all add: url)
    ultimately show ?thesis by simp
  qed
qed

text \<open>
  C9, as the code has it. The two variants compute the same page URL when the configured
  base URL is the constant of the script, the same challenge detection, the same card
  collection, the same rating and the same categories, and so the same record for every card
  on which they extract the same name. They extract the same name when the title link
  exists and its text is not blank, and when no title element exists at all. Their page steps
  give the same result and state when, with the same base URL, the page shows no challenge at
  the first check and the names of its cards agree.
\<close>

theorem variants_agree:
  "(city_url cfg = CITY_URL \<longrightarrow> script_page_url k = page_url cfg k) \<and>
   script_is_protect_screen w src = is_protect_screen w src \<and>
   script_collect_cards view = collect_cards view \<and>
   script_parse_rating crd = extract_rating crd \<and>
   script_parse_categories crd = extract_categories crd \<and>
   (script_parse_name crd = extract_name crd \<longrightarrow> script_parse_card crd = parse_card crd) \<and>
   ((\<exists>e. find_element [''a.title-link.js-item-url''] (descendants crd) = Inr e \<and>
         \<not> list_all is_space (etext e)) \<longrightarrow>
      script_parse_name crd = extract_name crd) \<and>
   (find_elements [''a.title-link.js-item-url'', ''.minicard-item__title'', ''h2'']
      (descendants crd) = [] \<longrightarrow>
      script_parse_name crd = [] \<and> extract_name crd = []) \<and>
   (city_url cfg = CITY_URL \<and>
    \<not> challenged_at w (site w (page_url cfg page)) 0 \<and>
    list_all (\<lambda>c. script_parse_name c = extract_name c)
      (collect_cards (site w (page_url cfg page))) \<longrightarrow>
    script_page_step w page st = process_page w cfg page st)"
proof (intro conjI impI)
  show "script_is_protect_screen w src = is_protect_screen w src"
    by (rule script_is_protect_screen_eq)
  show "script_collect_cards view = collect_cards view"
    by (rule script_collect_cards_eq)
  show "script_parse_rating crd = extract_rating crd"
    by (rule script_parse_rating_eq)
  show "script_parse_categories crd = extract_categories crd"
    by (rule script_parse_categories_eq)
next
  assume "city_url cfg = CITY_URL"
  then show "script_page_url k = page_url cfg k"
    by (rule script_page_url_eq)
next
  assume "script_parse_name crd = extract_name crd"
  then show "script_parse_card crd = parse_card crd"
    by (rule script_parse_card_eq)
next
  assume "\<exists>e. find_element [''a.title-link.js-item-url''] (descendants crd) = Inr e \<and>
         \<not> list_all is_space (etext e)"
  then show "script_parse_name crd = extract_name crd"
    using names_agree_on_title_link by blast
next
  assume a: "find_elements [''a.title-link.js-item-url'', ''.minicard-item__title'', ''h2'']
      (descendants crd) = []"
  show "script_parse_name crd = []"
    using names_agree_without_title [OF a] by (rule conjunct1)
  show "extract_name crd = []"
    using names_agree_without_title [OF a] by (rule conjunct2)
next
  assume "city_url cfg = CITY_URL \<and>
    \<not> challenged_at w (site w (page_url cfg page)) 0 \<and>
    list_all (\<lambda>c. script_parse_name c = extract_name c)
      (collect_cards (site w (page_url cfg page)))"
  then show "script_page_step w page st = process_page w cfg page st"
    by (intro page_steps_agree) simp_all
qed

lemma example_card_script_name: "script_parse_name (example_card t) = py_strip t"
  by (simp add: script_parse_name_def example_card_def find_element_def find_elements_def
      selects_def)

lemma example_base_url: "city_url example_config = CITY_URL"
  by (simp add: example_config_def default_config_def CITY_URL_def)

theorem variants_agree_witness:
  "city_url example_config = CITY_URL \<and>
   \<not> challenged_at example_world (site example_world (page_url example_config 1)) 0 \<and>
   script_page_url 2 = page_url example_config 2 \<and>
   script_parse_card (example_card (ascii ''Alpha'')) = parse_card (example_card (ascii ''Alpha'')) \<and>
   script_page_step example_world 1 (new_scraper Map.empty) =
     process_page example_world example_config 1 (new_scraper Map.empty) \<and>
   fst (script_page_step example_world 1 (new_scraper Map.empty)) = Inr True"
proof -
  have clear: "\<not> challenged_at example_world (site example_world (page_url example_config 1)) 0"
    by (simp add: example_site plain_view_clear)
  have names: "list_all (\<lambda>c. script_parse_name c = extract_name c)
      (collect_cards (site example_world (page_url example_config 1)))"
    by (simp add: example_site example_cards example_card_script_name example_card_name)
  have link: "\<exists>e. find_element [''a.title-link.js-item-url'']
        (descendants (example_card (ascii ''Alpha''))) = Inr e \<and> \<not> list_all is_space (etext e)"
    by (simp add: example_card_def find_element_def find_elements_def selects_def ascii_def
        is_space_def)
  note va = variants_agree [of example_config 2 example_world "[]" "plain_view []"
      "example_card (ascii ''Alpha'')" 1 "new_scraper Map.empty"]
  have u2: "script_page_url 2 = page_url example_config 2"
    using va example_base_url by blast
  have nm: "script_parse_name (example_card (ascii ''Alpha'')) = extract_name (example_card (ascii ''Alpha''))"
    using va link by blast
  have pc: "script_parse_card (example_card (ascii ''Alpha'')) = parse_card (example_card (ascii ''Alpha''))"
    using va nm by blast
  have st: "script_page_step example_world 1 (new_scraper Map.empty) =
     process_page example_world example_config 1 (new_scraper Map.empty)"
    using va example_base_url clear names by blast
  have "fst (script_page_step example_world 1 (new_scraper Map.empty)) = Inr True"
    by (simp add: st example_page_one)
  with example_base_url clear u2 pc st show ?thesis
    by (intro conjI)
qed

theorem variants_differ_counterexample:
  "extract_name blank_link_card = ascii ''Alpha'' \<and>
   script_parse_name blank_link_card = [] \<and>
   script_parse_card blank_link_card \<noteq> parse_card blank_link_card \<and>
   city_url example_config = CITY_URL \<and>
   headless example_config = HEADLESS \<and>
   fst (process_page stuck_world example_config 1 (new_scraper Map.empty)) = Inr False \<and>
   fst (script_page_step stuck_world 1 (new_scraper Map.empty)) = Inr True"
proof -
  have n1: "extract_name blank_link_card = ascii ''Alpha''"
    by (simp add: blank_link_card_def extract_name_def TITLE_SELECTORS_def find_element_def
        find_elements_def selects_def py_strip_def is_space_def ascii_def Let_def)
  have n2: "script_parse_name blank_link_card = []"
    by (simp add: blank_link_card_def script_parse_name_def find_element_def
        find_elements_def selects_def py_strip_def is_space_def ascii_def)
  obtain p where p: "parse_card blank_link_card = Inr p" "name p = extract_name blank_link_card"
    using parse_card_total by blast
  obtain q where q: "script_parse_card blank_link_card = Inr q"
      "name q = script_parse_name blank_link_card"
    using script_parse_card_total by blast
  have "name p \<noteq> name q"
    by (simp add: p(2) q(2) n1 n2 ascii_def)
  then have d: "script_parse_card blank_link_card \<noteq> parse_card blank_link_card"
    using p(1) q(1) by auto
  have hd: "headless example_config = HEADLESS"
    by (simp add: example_config_def default_config_def HEADLESS_def)
  have url: "page_url example_config 1 = ascii ''https://zoon.ru/tomsk/restaurants/''"
    by (rule example_urls(1))
  have nc: "\<not> crash (site stuck_world (page_url example_config 1))"
    by (simp add: url stuck_site) (simp add: stuck_view_def)
  have c1: "\<forall>i \<le> nat (protect_poll_attempts example_config).
      challenged_at stuck_world (site stuck_world (page_url example_config 1)) i"
    by (simp add: url stuck_site stuck_challenged)
  have c2: "\<forall>i \<le> nat (protect_poll_attempts example_config) +
        nat (protect_manual_retry_attempts example_config).
      challenged_at stuck_world (site stuck_world (page_url example_config 1)) i"
    by (simp add: url stuck_site stuck_challenged)
  obtain st' where "process_page stuck_world example_config 1 (new_scraper Map.empty) = (Inr False, st')"
    using process_page_challenge_abort [OF nc c1 disjI2 [OF c2], of "new_scraper Map.empty" "[]"]
    by (elim exE conjE) (rule that, assumption+)
  then have a: "fst (process_page stuck_world example_config 1 (new_scraper Map.empty)) = Inr False"
    by simp
  obtain s1 where "script_page_step stuck_world 1 (new_scraper Map.empty) = (Inr True, s1)"
    using stuck_script_page_one [of "new_scraper Map.empty"] by blast
  then have b: "fst (script_page_step stuck_world 1 (new_scraper Map.empty)) = Inr True"
    by simp
  from n1 n2 d example_base_url hd a b show ?thesis
    by (intro conjI)
qed

section \<open>The opened-page line in the persisted log\<close>

lemma str_int_no_colon: "58 \<notin> set (str_int k)"
  by (auto simp: str_int_def dest: str_nat_digits)

lemma str_nat_inj: "str_nat a = str_nat b \<Longrightarrow> a = b"
  using dec_value_str_nat by metis

lemma str_int_inj:
  assumes "str_int a = str_int b"
  shows "a = b"
proof -
  have mixed: "45 # xs \<noteq> str_nat n" for xs n
  proof
    assume "45 # xs = str_nat n"
    then have "45 \<in> set (str_nat n)"
      by (metis list.set_intros(1))
    then show False
      by (auto dest: str_nat_digits)
  qed
  show ?thesis
  proof (cases "a < 0")
    case True
    show ?thesis
    proof (cases "b < 0")
      case True
      with \<open>a < 0\<close> assms have "nat (- a) = nat (- b)"
        by (simp add: str_int_def str_nat_inj)
      with True \<open>a < 0\<close> show ?thesis by simp
    next
      case False
      with True assms mixed show ?thesis
        by (simp add: str_int_def)
    qed
  next
    case False
    show ?thesis
    proof (cases "b < 0")
      case True
      with False assms mixed [of "str_nat (nat (- b))" "nat a"] show ?thesis
        by (simp add: str_int_def)
    next
      case b: False
      with False assms have "nat a = nat b"
        by (simp add: str_int_def str_nat_inj)
      with False b show ?thesis by simp
    qed
  qed
qed

lemma msg_opened_inj: "msg_opened k u = msg_opened q v \<longleftrightarrow> k = q \<and> u = v"
proof
  assume "msg_opened k u = msg_opened q v"
  then have e: "str_int k @ 58 # 32 # u = str_int q @ 58 # 32 # v"
    by (simp add: msg_opened_def ascii_def)
  have t: "takeWhile (\<lambda>c. c \<noteq> 58) (str_int n @ 58 # 32 # x) = str_int n" for n x
    using str_int_no_colon [of n] by (subst takeWhile_append2) auto
  have "str_int k = str_int q"
    using arg_cong [OF e, of "takeWhile (\<lambda>c. c \<noteq> 58)"] by (simp only: t)
  then have "k = q" by (rule str_int_inj)
  with e show "k = q \<and> u = v" by simp
next
  assume "k = q \<and> u = v"
  then show "msg_opened k u = msg_opened q v" by simp
qed

lemma script_main_fields:
  "logs (snd (script_main w fs)) = logs (snd (scrape_all_pages w fs))"
  "visited (snd (script_main w fs)) = visited (snd (scrape_all_pages w fs))"
  "places (snd (script_main w fs)) = places (snd (scrape_all_pages w fs))"
  by (simp_all add: script_main_def split: prod.splits sum.splits)

lemma scrape_all_pages_result:
  "fst (scrape_all_pages w fs) = Inr (ps, history) \<Longrightarrow>
   ps = places (snd (scrape_all_pages w fs)) \<and> history = logs (snd (scrape_all_pages w fs))"
  by (auto simp: scrape_all_pages_def Let_def split: prod.splits option.splits)

lemma script_main_persists_log:
  assumes "fst (script_main w fs) = None"
  shows "files (snd (script_main w fs)) LOG_PATH =
     Some (TextFile (join [10] (logs (snd (script_main w fs)))))"
proof -
  obtain r st where r: "scrape_all_pages w fs = (r, st)"
    by (cases "scrape_all_pages w fs")
  with assms obtain ps history where ok: "r = Inr (ps, history)"
    by (cases r) (auto simp: script_main_def)
  have "history = logs st"
    using scrape_all_pages_result [of w fs ps history] r ok by simp
  then show ?thesis
    by (simp add: script_main_def r ok)
qed

lemma main_fault_files:
  "fst (main w cfg fs) \<noteq> None \<Longrightarrow>
   files (snd (main w cfg fs)) = files (snd (run w cfg (new_scraper fs)))"
  by (auto simp: main_def split: prod.splits sum.splits)

lemma script_main_fault_files:
  "fst (script_main w fs) \<noteq> None \<Longrightarrow>
   files (snd (script_main w fs)) = files (snd (scrape_all_pages w fs))"
  by (auto simp: script_main_def split: prod.splits sum.splits)

lemma process_page_partial_log:
  assumes "fst (process_page w cfg page st) = Inr True"
  shows "files (snd (process_page w cfg page st)) (partial_log_name (format_02d page)) =
     Some (TextFile (join [10] (logs (snd (process_page w cfg page st)))))"
proof -
  have "process_page w cfg page st = (Inr True, snd (process_page w cfg page st))"
    using assms by (cases "process_page w cfg page st") simp
  then obtain st6 where "snd (process_page w cfg page st) = save_partial page st6"
    using process_page_saved by blast
  then show ?thesis
    by (simp add: save_partial_log)
qed

lemma script_page_step_partial_log:
  assumes "fst (script_page_step w page st) = Inr True"
  shows "files (snd (script_page_step w page st)) (partial_log_name (format_02d page)) =
     Some (TextFile (join [10] (logs (snd (script_page_step w page st)))))"
proof -
  have "script_page_step w page st = (Inr True, snd (script_page_step w page st))"
    using assms by (cases "script_page_step w page st") simp
  then obtain st6 where "snd (script_page_step w page st) = save_partial page st6"
    using script_page_step_saved by blast
  then show ?thesis
    by (simp add: save_partial_log)
qed

lemma script_main_opened_lines:
  "\<exists>vp rest. [1 .. TOTAL_PAGES] = vp @ rest \<and>
      visited (snd (script_main w fs)) = map script_page_url vp \<and>
      filter opened_line (logs (snd (script_main w fs))) =
        map (\<lambda>k. msg_opened k (script_page_url k)) vp"
  unfolding script_main_fields by (rule script_opened_lines)


lemma crash_everywhere: "crash (site crash_world u)"
  by (simp add: crash_world_def)

lemma crash_main:
  "main crash_world example_config fs =
     (Some WebDriverException,
      close crash_world
        (after_open 1 (page_url example_config 1) (ensure_driver (new_scraper fs))))"
proof -
  have tp: "total_pages example_config = 3"
    by (simp add: example_config_def)
  have loop: "run_loop crash_world example_config [1 .. total_pages example_config]
      (ensure_driver (new_scraper fs)) =
      (Some WebDriverException,
       after_open 1 (page_url example_config 1) (ensure_driver (new_scraper fs)))"
    unfolding tp upto_1_3 by (simp add: process_page_crash [OF crash_everywhere])
  show ?thesis
    by (simp add: main_def run_def loop Let_def)
qed

lemma crash_script_main:
  "script_main crash_world fs =
     (Some WebDriverException,
      (after_open 1 (script_page_url 1)
         \<lparr> places = [], logs = [], driver_open = True, visited = [], quit_calls = 0, files = fs \<rparr>)
      \<lparr>quit_calls := 1, driver_open := False\<rparr>)"
proof -
  let ?ini = "\<lparr> places = [], logs = [], driver_open = True, visited = [], quit_calls = 0,
      files = fs \<rparr>"
  have pages: "[1 .. TOTAL_PAGES] = 1 # [2 .. 34]"
    by (simp add: TOTAL_PAGES_def upto_rec1)
  have loop: "script_loop crash_world [1 .. TOTAL_PAGES] ?ini =
      (Some WebDriverException, after_open 1 (script_page_url 1) ?ini)"
    unfolding pages by (simp add: script_page_step_crash [OF crash_everywhere])
  have q: "\<not> quit_raises crash_world"
    by (simp add: crash_world_def)
  have "scrape_all_pages crash_world fs =
      (Inl WebDriverException,
       (after_open 1 (script_page_url 1) ?ini)\<lparr>quit_calls := 1, driver_open := False\<rparr>)"
    unfolding scrape_all_pages_def loop
    by (simp add: Let_def driver_quit_def q after_open_def log_append_def)
  then show ?thesis
    by (simp add: script_main_def)
qed

lemma stuck_main:
  "\<exists>st. main stuck_world headless_config fs = (None, st) \<and>
      visited st = [page_url headless_config 1] \<and>
      logs st = [msg_opened 1 (page_url headless_config 1), msg_page 1 txt_protect_wait,
                 msg_page 1 txt_protect_failed]"
proof -
  let ?ini = "ensure_driver (new_scraper fs)"
  have hl: "headless headless_config"
    by (simp add: headless_config_def)
  have tp: "total_pages headless_config = 3"
    by (simp add: headless_config_def)
  have nc: "\<not> crash (site stuck_world (page_url headless_config 1))"
    by (simp add: headless_url stuck_site) (simp add: stuck_view_def)
  have ch: "\<forall>i \<le> nat (protect_poll_attempts headless_config).
      challenged_at stuck_world (site stuck_world (page_url headless_config 1)) i"
    by (simp add: headless_url stuck_site stuck_challenged)
  from process_page_challenge_abort [OF nc ch disjI1 [OF hl], of ?ini "[2, 3]"]
  obtain st' where st': "run_loop stuck_world headless_config [1, 2, 3] ?ini = (None, st')"
      "visited st' = visited ?ini @ [page_url headless_config 1]"
      "logs st' = logs ?ini @ msg_opened 1 (page_url headless_config 1) #
             (if headless headless_config
              then [msg_page 1 txt_protect_wait, msg_page 1 txt_protect_failed]
              else [msg_page 1 txt_protect_wait, msg_page 1 txt_manual, msg_page 1 txt_manual_failed])"
    by (elim exE conjE) (rule that, assumption+)
  have loop: "run_loop stuck_world headless_config [1 .. total_pages headless_config] ?ini = (None, st')"
    unfolding tp upto_1_3 by (rule st'(1))
  define fin where "fin = (close stuck_world st')\<lparr>files := (files (close stuck_world st'))
      (csv_filename headless_config \<mapsto> CsvFile (df_from_places (places (close stuck_world st'))),
       log_filename headless_config \<mapsto> TextFile (join [10] (logs (close stuck_world st'))))\<rparr>"
  have m: "main stuck_world headless_config fs = (None, fin)"
    by (simp add: main_def run_def loop Let_def fin_def)
  have v: "visited fin = [page_url headless_config 1]"
    using st'(2) by (simp add: fin_def new_scraper_def)
  have l: "logs fin = [msg_opened 1 (page_url headless_config 1), msg_page 1 txt_protect_wait,
                 msg_page 1 txt_protect_failed]"
    using st'(3) hl by (simp add: fin_def new_scraper_def)
  from m v l show ?thesis
    by (intro exI [of _ fin] conjI)
qed

lemma stuck_script_main:
  "fst (script_main stuck_world fs) = None \<and>
   visited (snd (script_main stuck_world fs)) = [script_page_url 1, script_page_url 2]"
proof -
  let ?ini = "\<lparr> places = [], logs = [], driver_open = True, visited = [], quit_calls = 0,
      files = fs \<rparr>"
  obtain st1 where st1: "script_page_step stuck_world 1 ?ini = (Inr True, st1)"
      "visited st1 = visited ?ini @ [script_page_url 1]"
    using stuck_script_page_one [of ?ini] by blast
  obtain st2 where st2: "script_page_step stuck_world 2 st1 = (Inr False, st2)"
      "visited st2 = visited st1 @ [script_page_url 2]"
    using stuck_script_page_two [of st1] by blast
  have pages: "[1 .. TOTAL_PAGES] = 1 # 2 # [3 .. 34]"
    by (simp add: TOTAL_PAGES_def upto_rec1)
  have loop: "script_loop stuck_world [1 .. TOTAL_PAGES] ?ini = (None, st2)"
    unfolding pages by (simp add: st1(1) st2(1))
  have v: "visited (snd (script_main stuck_world fs)) = [script_page_url 1, script_page_url 2]"
    by (simp add: script_main_fields scrape_all_pages_state loop st2(2) st1(2))
  have "fst (scrape_all_pages stuck_world fs) =
      Inr (places (snd (scrape_all_pages stuck_world fs)), logs (snd (scrape_all_pages stuck_world fs)))"
    unfolding scrape_all_pages_def loop by (simp add: Let_def split: prod.splits)
  then have "fst (script_main stuck_world fs) = None"
    by (cases "scrape_all_pages stuck_world fs") (simp add: script_main_def)
  with v show ?thesis by simp
qed



end
